theory Spec2Isabelle
  imports Complex_Main
begin

section \<open>Python values, failures and builtins\<close>

text \<open>
  Python integers are unbounded, so they are \<open>int\<close>. A call has one of three outcomes:
  it returns a value (\<open>Inr v\<close>), it raises (\<open>Inl e\<close>), or, for the one \<open>while\<close> loop
  of the repository, it does not return at all (\<open>None\<close> of an \<open>option\<close> around the sum).
\<close>

datatype error = IndexError | ValueError | ZeroDivisionError

text \<open>
  The builtin \<open>pow(base, exp, mod)\<close> with three arguments: \<open>ValueError\<close> for a zero
  modulus, otherwise \<open>base ** exp % mod\<close>, where \<open>%\<close> takes the sign of the modulus
  exactly as \<open>mod\<close> on \<open>int\<close> does. The exponent is a natural number: the callers pass
  the odd part of \<open>n - 1\<close> and the literals 2 and 47; what the builtin does with a negative
  exponent depends on the Python version and is outside the model.
\<close>

definition python_pow :: "int \<Rightarrow> nat \<Rightarrow> int \<Rightarrow> error + int" where
  "python_pow b e m = (if m = 0 then Inl ValueError else Inr (b ^ e mod m))"

text \<open>The binary operator \<open>a % b\<close> on integers.\<close>

definition python_mod :: "int \<Rightarrow> int \<Rightarrow> error + int" where
  "python_mod a b = (if b = 0 then Inl ZeroDivisionError else Inr (a mod b))"

text \<open>List subscription \<open>xs[i]\<close> and item assignment \<open>xs[i] = v\<close>: a negative index
  counts from the end, an index out of range raises \<open>IndexError\<close>.\<close>

definition getitem :: "'a list \<Rightarrow> int \<Rightarrow> error + 'a" where
  "getitem xs i =
     (let len = int (length xs); j = (if i < 0 then len + i else i)
      in if 0 \<le> j \<and> j < len then Inr (xs ! nat j) else Inl IndexError)"

definition setitem :: "'a list \<Rightarrow> int \<Rightarrow> 'a \<Rightarrow> error + 'a list" where
  "setitem xs i v =
     (let len = int (length xs); j = (if i < 0 then len + i else i)
      in if 0 \<le> j \<and> j < len then Inr (xs[nat j := v]) else Inl IndexError)"

text \<open>\<open>range(start, stop)\<close> is \<open>[start..stop - 1]\<close>. \<open>range(start, stop, step)\<close> raises
  \<open>ValueError\<close> for a zero step and otherwise counts up or down.\<close>

function range_up :: "int \<Rightarrow> int \<Rightarrow> int \<Rightarrow> int list" where
  "range_up start stop step =
     (if 0 < step \<and> start < stop then start # range_up (start + step) stop step else [])"
  by pat_completeness auto
termination
  by (relation "measure (\<lambda>(start, stop, step). nat (stop - start))") auto

declare range_up.simps [simp del]

function range_down :: "int \<Rightarrow> int \<Rightarrow> int \<Rightarrow> int list" where
  "range_down start stop step =
     (if step < 0 \<and> stop < start then start # range_down (start + step) stop step else [])"
  by pat_completeness auto
termination
  by (relation "measure (\<lambda>(start, stop, step). nat (start - stop))") auto

declare range_down.simps [simp del]

definition range3 :: "int \<Rightarrow> int \<Rightarrow> int \<Rightarrow> error + int list" where
  "range3 start stop step =
     (if step = 0 then Inl ValueError
      else if 0 < step then Inr (range_up start stop step)
      else Inr (range_down start stop step))"

text \<open>
  \<open>random.randrange(start, stop)\<close>. The generator is an explicit state: the sequence of
  raw values it is going to produce. A draw maps the next raw value into
  \<open>[start, stop)\<close>, so every value of the range can be drawn and nothing else; an empty
  range raises \<open>ValueError\<close>.
\<close>

type_synonym rng = "nat \<Rightarrow> nat"

definition randrange :: "int \<Rightarrow> int \<Rightarrow> rng \<Rightarrow> error + int \<times> rng" where
  "randrange start stop g =
     (if stop \<le> start then Inl ValueError
      else Inr (start + int (g 0) mod (stop - start), \<lambda>i. g (Suc i)))"

text \<open>\<open>str(q)\<close> for an integer: its decimal digits, with a minus sign when negative.\<close>

function digits :: "nat \<Rightarrow> string" where
  "digits m = (if m < 10 then [char_of (48 + m)] else digits (m div 10) @ [char_of (48 + m mod 10)])"
  by pat_completeness auto
termination
  by (relation "measure id") auto

declare digits.simps [simp del]

definition str :: "int \<Rightarrow> string" where
  "str q = (if q < 0 then CHR ''-'' # digits (nat (- q)) else digits (nat q))"

text \<open>
  \<open>int(n ** 0.5)\<close>: the float square root, truncated. It is modelled at its exact value,
  the integer square root, found by counting up.
\<close>

function isqrt_from :: "nat \<Rightarrow> nat \<Rightarrow> nat" where
  "isqrt_from k m = (if (k + 1) * (k + 1) \<le> m then isqrt_from (k + 1) m else k)"
  by pat_completeness auto
termination
proof (relation "measure (\<lambda>(k, m). m - k)")
  show "wf (measure (\<lambda>(k, m). m - k))" by simp
next
  fix k m :: nat
  assume "(k + 1) * (k + 1) \<le> m"
  moreover have "k + 1 \<le> (k + 1) * (k + 1)" by simp
  ultimately have "k + 1 \<le> m" by linarith
  then show "((k + 1, m), (k, m)) \<in> measure (\<lambda>(k, m). m - k)" by simp
qed

declare isqrt_from.simps [simp del]

definition isqrt :: "int \<Rightarrow> int" where
  "isqrt n = int (isqrt_from 0 (nat n))"

section \<open>verify\_quadruplets.py\<close>

definition Q :: "int \<Rightarrow> int" where
  "Q n = n ^ 47 - (n - 1) ^ 47"

text \<open>
  The loop \<open>while d % 2 == 0: r += 1; d //= 2\<close>. It never ends on \<open>d = 0\<close>, so it is a
  partial function and its callers carry the \<open>None\<close>.
\<close>

partial_function (option) halve :: "int \<Rightarrow> int \<Rightarrow> (int \<times> int) option" where
  "halve r d = (if d mod 2 = 0 then halve (r + 1) (d div 2) else Some (r, d))"

text \<open>
  The inner \<open>for _ in range(r - 1)\<close> with its \<open>else\<close>: \<open>Inr True\<close> when the loop left by
  \<open>break\<close> (some square equals \<open>n - 1\<close>), \<open>Inr False\<close> when it ran out, which is where
  the source returns \<open>False\<close>.
\<close>

fun squarings :: "nat \<Rightarrow> int \<Rightarrow> int \<Rightarrow> error + bool" where
  "squarings 0 x n = Inr False"
| "squarings (Suc c) x n =
     (case python_pow x 2 n of
        Inl e \<Rightarrow> Inl e
      | Inr y \<Rightarrow> if y = n - 1 then Inr True else squarings c y n)"

text \<open>One pass of the body of \<open>for _ in range(k)\<close> with the drawn base \<open>a\<close>:
  \<open>Inr True\<close> when the round goes on to the next one, \<open>Inr False\<close> when it returns
  \<open>False\<close>.\<close>

definition round_passes :: "int \<Rightarrow> int \<Rightarrow> int \<Rightarrow> int \<Rightarrow> error + bool" where
  "round_passes n r d a =
     (case python_pow a (nat d) n of
        Inl e \<Rightarrow> Inl e
      | Inr x \<Rightarrow> if x = 1 \<or> x = n - 1 then Inr True else squarings (nat (r - 1)) x n)"

fun rounds :: "nat \<Rightarrow> int \<Rightarrow> int \<Rightarrow> int \<Rightarrow> rng \<Rightarrow> error + bool \<times> rng" where
  "rounds 0 n r d g = Inr (True, g)"
| "rounds (Suc k) n r d g =
     (case randrange 2 (n - 1) g of
        Inl e \<Rightarrow> Inl e
      | Inr (a, g') \<Rightarrow>
          (case round_passes n r d a of
             Inl e \<Rightarrow> Inl e
           | Inr continue \<Rightarrow> if continue then rounds k n r d g' else Inr (False, g')))"

definition is_prime_miller_rabin :: "int \<Rightarrow> int \<Rightarrow> rng \<Rightarrow> (error + bool \<times> rng) option" where
  "is_prime_miller_rabin n k g =
     (if n < 2 then Some (Inr (False, g))
      else if n = 2 \<or> n = 3 then Some (Inr (True, g))
      else if n mod 2 = 0 then Some (Inr (False, g))
      else (case halve 0 (n - 1) of
              None \<Rightarrow> None
            | Some (r, d) \<Rightarrow> Some (rounds (nat k) n r d g)))"

text \<open>
  \<open>verify_exclusion_theorem\<close>. The loop is written over the polynomial it checks, so
  that what it does on a failing value can be stated; the source's function is the loop
  at \<open>Q\<close>. \<open>Some n\<close> is the path that prints \<open>FAILED at n\<close> and returns \<open>False\<close>,
  \<open>None\<close> the one that prints \<open>PASS\<close> and returns \<open>True\<close>. The progress lines are
  left out.
\<close>

fun exclusion_loop :: "(int \<Rightarrow> int) \<Rightarrow> int list \<Rightarrow> int option" where
  "exclusion_loop q [] = None"
| "exclusion_loop q (n # ns) = (if q n mod 3 \<noteq> 1 then Some n else exclusion_loop q ns)"

definition verify_exclusion_with :: "(int \<Rightarrow> int) \<Rightarrow> int \<Rightarrow> bool" where
  "verify_exclusion_with q max_n = (exclusion_loop q [2..max_n + 1 - 1] = None)"

definition verify_exclusion_theorem :: "int \<Rightarrow> bool" where
  "verify_exclusion_theorem max_n = verify_exclusion_with Q max_n"

text \<open>\<open>verify_quadruplet\<close>: the loop over \<open>range(4)\<close>, with the default 25 rounds.\<close>

fun quadruplet_loop ::
  "int \<Rightarrow> int list \<Rightarrow> (bool \<times> nat) list \<Rightarrow> rng \<Rightarrow> (error + (bool \<times> nat) list \<times> rng) option" where
  "quadruplet_loop n [] results g = Some (Inr (results, g))"
| "quadruplet_loop n (i # rest) results g =
     (let q = Q (n + i); digits = length (str q)
      in case is_prime_miller_rabin q 25 g of
           None \<Rightarrow> None
         | Some (Inl e) \<Rightarrow> Some (Inl e)
         | Some (Inr (is_prime, g')) \<Rightarrow>
             quadruplet_loop n rest (results @ [(is_prime, digits)]) g')"

definition verify_quadruplet :: "int \<Rightarrow> rng \<Rightarrow> (error + (bool \<times> nat list) \<times> rng) option" where
  "verify_quadruplet n g =
     (case quadruplet_loop n [0..4 - 1] [] g of
        None \<Rightarrow> None
      | Some (Inl e) \<Rightarrow> Some (Inl e)
      | Some (Inr (results, g')) \<Rightarrow>
          Some (Inr ((list_all fst results, map snd results), g')))"

section \<open>scripts/compute\_bateman\_horn.py\<close>

text \<open>The two loops of the sieve over the table \<open>is_prime\<close>, and the final
  comprehension.\<close>

fun mark_multiples :: "bool list \<Rightarrow> int list \<Rightarrow> error + bool list" where
  "mark_multiples is_prime [] = Inr is_prime"
| "mark_multiples is_prime (j # js) =
     (case setitem is_prime j False of
        Inl e \<Rightarrow> Inl e
      | Inr t \<Rightarrow> mark_multiples t js)"

fun sieve_loop :: "int \<Rightarrow> bool list \<Rightarrow> int list \<Rightarrow> error + bool list" where
  "sieve_loop n is_prime [] = Inr is_prime"
| "sieve_loop n is_prime (i # rest) =
     (case getitem is_prime i of
        Inl e \<Rightarrow> Inl e
      | Inr unmarked \<Rightarrow>
          if unmarked then
            (case range3 (i * i) (n + 1) i of
               Inl e \<Rightarrow> Inl e
             | Inr js \<Rightarrow>
                 (case mark_multiples is_prime js of
                    Inl e \<Rightarrow> Inl e
                  | Inr t \<Rightarrow> sieve_loop n t rest))
          else sieve_loop n is_prime rest)"

fun unmarked_of :: "bool list \<Rightarrow> int list \<Rightarrow> error + int list" where
  "unmarked_of is_prime [] = Inr []"
| "unmarked_of is_prime (i # rest) =
     (case getitem is_prime i of
        Inl e \<Rightarrow> Inl e
      | Inr unmarked \<Rightarrow>
          (case unmarked_of is_prime rest of
             Inl e \<Rightarrow> Inl e
           | Inr ps \<Rightarrow> Inr (if unmarked then i # ps else ps)))"

definition sieve_primes :: "int \<Rightarrow> error + int list" where
  "sieve_primes n =
     (case setitem (replicate (nat (n + 1)) True) 0 False of
        Inl e \<Rightarrow> Inl e
      | Inr t0 \<Rightarrow>
          (case setitem t0 1 False of
             Inl e \<Rightarrow> Inl e
           | Inr t1 \<Rightarrow>
               (case sieve_loop n t1 [2..isqrt n + 1 - 1] of
                  Inl e \<Rightarrow> Inl e
                | Inr is_prime \<Rightarrow> unmarked_of is_prime [2..n + 1 - 1])))"

definition omega_Q :: "int \<Rightarrow> int" where
  "omega_Q p = (if p = 47 then 0 else if (p - 1) mod 47 = 0 then 46 else 0)"

text \<open>
  \<open>compute_CQ\<close>. The four accumulators of its loop are a record; the printing is left
  out, except that \<open>ptype\<close> is the expression that names a prime's type in a printed
  row. The two products are Python floats; they are modelled by exact reals, so nothing
  below speaks about their values. The true divisions raise on a zero divisor.
\<close>

record series_state =
  C_Q :: real
  shielding_product :: real
  n_shielding :: int
  n_splitting :: int

definition ptype :: "int \<Rightarrow> int \<Rightarrow> string" where
  "ptype w p = (if w = 46 then ''SPLIT'' else if p = 47 then ''ramified'' else ''shield'')"

definition local_factor_of :: "int \<Rightarrow> int \<Rightarrow> error + real" where
  "local_factor_of w p =
     (if p = 0 then Inl ZeroDivisionError
      else if 1 - 1 / real_of_int p = 0 then Inl ZeroDivisionError
      else Inr ((1 - real_of_int w / real_of_int p) / (1 - 1 / real_of_int p)))"

fun series_loop :: "series_state \<Rightarrow> int list \<Rightarrow> error + series_state" where
  "series_loop st [] = Inr st"
| "series_loop st (p # rest) =
     (let w = omega_Q p
      in case local_factor_of w p of
           Inl e \<Rightarrow> Inl e
         | Inr local_factor \<Rightarrow>
             (let st1 = st\<lparr>C_Q := C_Q st * local_factor\<rparr>;
                  st2 = (if w = 0
                         then st1\<lparr>shielding_product := shielding_product st1 * local_factor,
                                   n_shielding := n_shielding st1 + 1\<rparr>
                         else st1\<lparr>n_splitting := n_splitting st1 + 1\<rparr>)
              in series_loop st2 rest))"

definition compute_CQ_state :: "int \<Rightarrow> error + series_state" where
  "compute_CQ_state p_max =
     (case sieve_primes p_max of
        Inl e \<Rightarrow> Inl e
      | Inr primes \<Rightarrow>
          series_loop \<lparr>C_Q = 1, shielding_product = 1, n_shielding = 0, n_splitting = 0\<rparr> primes)"

definition compute_CQ :: "int \<Rightarrow> error + real" where
  "compute_CQ p_max = (case compute_CQ_state p_max of Inl e \<Rightarrow> Inl e | Inr st \<Rightarrow> Inr (C_Q st))"

text \<open>
  \<open>verify_omega_computationally\<close>. \<open>is_root n p\<close> is the condition of the generator
  expression, \<open>brute\<close> the \<open>sum(1 for n in range(p) if ...)\<close>.
\<close>

definition is_root :: "int \<Rightarrow> int \<Rightarrow> error + bool" where
  "is_root n p =
     (case python_pow n 47 p of
        Inl e \<Rightarrow> Inl e
      | Inr a \<Rightarrow>
          (case python_mod (n - 1) p of
             Inl e \<Rightarrow> Inl e
           | Inr m \<Rightarrow>
               (case python_pow m 47 p of
                  Inl e \<Rightarrow> Inl e
                | Inr b \<Rightarrow>
                    (case python_mod (a - b) p of
                       Inl e \<Rightarrow> Inl e
                     | Inr c \<Rightarrow> Inr (c = 0)))))"

fun count_roots :: "int \<Rightarrow> int list \<Rightarrow> error + int" where
  "count_roots p [] = Inr 0"
| "count_roots p (n # ns) =
     (case is_root n p of
        Inl e \<Rightarrow> Inl e
      | Inr hit \<Rightarrow>
          (case count_roots p ns of
             Inl e \<Rightarrow> Inl e
           | Inr c \<Rightarrow> Inr (if hit then 1 + c else c)))"

definition brute :: "int \<Rightarrow> error + int" where
  "brute p = count_roots p [0..p - 1]"

fun omega_loop :: "bool \<Rightarrow> int list \<Rightarrow> error + bool" where
  "omega_loop all_match [] = Inr all_match"
| "omega_loop all_match (p # rest) =
     (case brute p of
        Inl e \<Rightarrow> Inl e
      | Inr b \<Rightarrow> omega_loop (if b \<noteq> omega_Q p then False else all_match) rest)"

definition verify_omega_computationally :: "int \<Rightarrow> error + bool" where
  "verify_omega_computationally p_max =
     (case sieve_primes p_max of
        Inl e \<Rightarrow> Inl e
      | Inr primes \<Rightarrow> omega_loop True primes)"

section \<open>Primes\<close>

text \<open>
  The specification's notion of a prime: an integer \<open>p \<ge> 2\<close> with no divisor other than
  1 and itself, written as a test over the candidates \<open>2, ..., p - 1\<close>.
\<close>


definition prime :: "int \<Rightarrow> bool" where
  "prime p = (2 \<le> p \<and> list_all (\<lambda>d. p mod d \<noteq> 0) [2..p - 1])"

text \<open>
  The specification's round of the test, stated on the numbers alone. Write
  \<open>n - 1 = 2^r * d\<close> with \<open>d\<close> odd; a base \<open>a\<close> passes, and is called a strong liar when
  \<open>n\<close> is composite, if \<open>a^d mod n = 1\<close> or \<open>a^(d * 2^j) mod n = n - 1\<close> for some
  \<open>0 \<le> j < r\<close>. \<open>two_exponent\<close> and \<open>odd_part\<close> are the \<open>r\<close> and the \<open>d\<close> of a
  positive number.
\<close>

function two_exponent :: "nat \<Rightarrow> nat" where
  "two_exponent m = (if m = 0 \<or> odd m then 0 else Suc (two_exponent (m div 2)))"
  by pat_completeness auto
termination
  by (relation "measure id") auto

declare two_exponent.simps [simp del]

function odd_part :: "nat \<Rightarrow> nat" where
  "odd_part m = (if m = 0 \<or> odd m then m else odd_part (m div 2))"
  by pat_completeness auto
termination
  by (relation "measure id") auto

declare odd_part.simps [simp del]

definition strong_liar :: "int \<Rightarrow> int \<Rightarrow> bool" where
  "strong_liar n a =
     (let r = two_exponent (nat (n - 1)); d = odd_part (nat (n - 1))
      in a ^ d mod n = 1 \<or> list_ex (\<lambda>j. a ^ (d * 2 ^ j) mod n = n - 1) [0..<r])"

text \<open>
  The state of the sieve's table once every \<open>i \<le> k\<close> has been handled: the table has
  \<open>n + 1\<close> entries, and entry \<open>j\<close> is still unmarked exactly when \<open>j \<ge> 2\<close> and no
  \<open>d\<close> in \<open>2, ..., k\<close> divides \<open>j\<close> with \<open>d * d \<le> j\<close>.
\<close>

definition sieved :: "int \<Rightarrow> int \<Rightarrow> bool list \<Rightarrow> bool" where
  "sieved n k t = (int (length t) = n + 1 \<and>
     (\<forall>j. 0 \<le> j \<and> j \<le> n \<longrightarrow>
        t ! nat j = (2 \<le> j \<and> \<not> (\<exists>d. 2 \<le> d \<and> d \<le> k \<and> d dvd j \<and> d * d \<le> j))))"

text \<open>
  Square-and-multiply over the bits of the exponent, least significant first. It is what
  evaluates \<open>pow(n, 47, p)\<close> at concrete arguments: 47 is \<open>101111\<close> in binary.
\<close>

fun bits_value :: "bool list \<Rightarrow> nat" where
  "bits_value [] = 0"
| "bits_value (b # bs) = (if b then 1 else 0) + 2 * bits_value bs"

fun modpow_bits :: "int \<Rightarrow> bool list \<Rightarrow> int \<Rightarrow> int \<Rightarrow> int" where
  "modpow_bits x [] p acc = acc"
| "modpow_bits x [b] p acc = (if b then acc * x mod p else acc)"
| "modpow_bits x (b # bs) p acc =
     modpow_bits (x * x mod p) bs p (if b then acc * x mod p else acc)"

section \<open>Arithmetic of the polynomial\<close>




lemma pow47_mod3: "(n::int) ^ 47 mod 3 = n mod 3"
proof -
  have "n mod 3 = 0 \<or> n mod 3 = 1 \<or> n mod 3 = 2" by presburger
  moreover have "n ^ 47 mod 3 = (n mod 3) ^ 47 mod 3" by (simp add: power_mod)
  ultimately show ?thesis by auto
qed

lemma Q_mod_3: "Q n mod 3 = 1"
proof -
  have "Q n mod 3 = (n ^ 47 mod 3 - (n - 1) ^ 47 mod 3) mod 3"
    unfolding Q_def by (simp add: mod_diff_eq)
  also have "\<dots> = (n mod 3 - (n - 1) mod 3) mod 3" by (simp only: pow47_mod3)
  also have "\<dots> = 1" by presburger
  finally show ?thesis .
qed

lemma exclusion_loop_find: "exclusion_loop q ns = List.find (\<lambda>n. q n mod 3 \<noteq> 1) ns"
  by (induction ns) auto

lemma exclusion_loop_None: "exclusion_loop q ns = None \<longleftrightarrow> (\<forall>n\<in>set ns. q n mod 3 = 1)"
  by (induction ns) auto

lemma exclusion_loop_first:
  assumes "a \<le> m" "m \<le> b" "q m mod 3 \<noteq> 1" "\<forall>j. a \<le> j \<and> j < m \<longrightarrow> q j mod 3 = 1"
  shows "exclusion_loop q [a..b] = Some m"
  using assms
proof (induction "nat (m - a)" arbitrary: a)
  case 0
  then have "a = m" by simp
  then show ?case using 0 by (simp add: upto_rec1)
next
  case (Suc k)
  then have lt: "a < m" by linarith
  then have "q a mod 3 = 1" using Suc.prems by simp
  moreover have "exclusion_loop q [a + 1..b] = Some m"
    using Suc lt by (intro Suc.hyps) auto
  moreover have "[a..b] = a # [a + 1..b]" using lt Suc.prems by (simp add: upto_rec1)
  ultimately show ?case by simp
qed

text \<open>
  Claim C8. \<open>Q(n)\<close> is exactly \<open>n^47 - (n - 1)^47\<close>, an integer computed with no
  modular reduction, and \<open>Q(2) = 2^47 - 1 = 140737488355327\<close>.
\<close>

theorem Q_exact: "Q n = n ^ 47 - (n - 1) ^ 47 \<and> Q 2 = 2 ^ 47 - 1 \<and> Q 2 = 140737488355327"
  by (simp add: Q_def)


text \<open>
  Claim C1. \<open>Q(n) mod 3 = 1\<close> for every integer \<open>n\<close>, in particular for \<open>n \<ge> 2\<close>, so
  \<open>verify_exclusion_theorem(max_n)\<close> returns \<open>True\<close> for every \<open>max_n\<close>. Run on any
  polynomial \<open>q\<close>, the loop stops at the first \<open>m\<close> of \<open>[2, max_n]\<close> with
  \<open>q(m) mod 3 \<noteq> 1\<close>, reports it and returns \<open>False\<close>.
\<close>

theorem exclusion_theorem_verified:
  "Q n mod 3 = 1 \<and> verify_exclusion_theorem max_n \<and>
   (2 \<le> m \<and> m \<le> max_n \<and> q m mod 3 \<noteq> 1 \<and> (\<forall>j. 2 \<le> j \<and> j < m \<longrightarrow> q j mod 3 = 1)
      \<longrightarrow> exclusion_loop q [2..max_n + 1 - 1] = Some m \<and> \<not> verify_exclusion_with q max_n)"
proof (intro conjI impI)
  show "Q n mod 3 = 1" by (rule Q_mod_3)
  show "verify_exclusion_theorem max_n"
    by (simp add: verify_exclusion_theorem_def verify_exclusion_with_def exclusion_loop_None Q_mod_3)
next
  assume h: "2 \<le> m \<and> m \<le> max_n \<and> q m mod 3 \<noteq> 1 \<and> (\<forall>j. 2 \<le> j \<and> j < m \<longrightarrow> q j mod 3 = 1)"
  then have "exclusion_loop q [2..max_n] = Some m" by (intro exclusion_loop_first) auto
  then show "exclusion_loop q [2..max_n + 1 - 1] = Some m" by simp
  then show "\<not> verify_exclusion_with q max_n" by (simp add: verify_exclusion_with_def)
qed

theorem exclusion_theorem_verified_witness:
  "Q 5 mod 3 = 1 \<and> verify_exclusion_theorem 6 \<and>
   exclusion_loop (\<lambda>n. if n = 4 then 0 else 1) [2..6 + 1 - 1] = Some 4 \<and>
   \<not> verify_exclusion_with (\<lambda>n. if n = 4 then 0 else 1) 6"
proof -
  have h: "(2::int) \<le> 4 \<and> (4::int) \<le> 6 \<and> (if (4::int) = 4 then 0 else 1) mod 3 \<noteq> (1::int) \<and>
        (\<forall>j::int. 2 \<le> j \<and> j < 4 \<longrightarrow> (if j = 4 then 0 else 1) mod 3 = (1::int))" by simp
  show ?thesis
    using exclusion_theorem_verified[of 5 6 4 "\<lambda>n. if n = 4 then 0 else 1"] h
    by blast
qed

section \<open>Divisibility by a prime\<close>

lemma prime_iff: "prime p \<longleftrightarrow> 2 \<le> p \<and> (\<forall>d. 1 < d \<and> d < p \<longrightarrow> \<not> d dvd p)"
  by (auto simp: prime_def list_all_iff dvd_eq_mod_eq_0)

lemma prime_divisors:
  assumes "prime p" "d dvd p" "0 \<le> d"
  shows "d = 1 \<or> d = p"
proof -
  have p: "2 \<le> p" using assms(1) by (simp add: prime_iff)
  have "d \<noteq> 0" using assms(2) p by auto
  moreover have "d \<le> p" using assms(2) p by (intro zdvd_imp_le) auto
  moreover have "\<not> (1 < d \<and> d < p)" using assms(1,2) by (auto simp: prime_iff)
  ultimately show ?thesis using assms(3) by linarith
qed

lemma prime_coprime:
  assumes "prime p" "\<not> p dvd a"
  shows "coprime p a"
proof (rule coprimeI)
  fix c assume c: "c dvd p" "c dvd a"
  have "\<bar>c\<bar> dvd p" using c(1) by simp
  then have "\<bar>c\<bar> = 1 \<or> \<bar>c\<bar> = p" using assms(1) by (intro prime_divisors) auto
  moreover have "\<bar>c\<bar> \<noteq> p" using c(2) assms(2) by (metis abs_dvd_iff)
  ultimately show "is_unit c" by simp
qed

lemma prime_dvd_mult:
  assumes "prime p" "p dvd a * b"
  shows "p dvd a \<or> p dvd b"
  using assms coprime_dvd_mult_left_iff prime_coprime by blast

lemma prime_dvd_choose:
  assumes "prime p" "0 < k" "k < nat p"
  shows "p dvd int (nat p choose k)"
proof -
  obtain j where j: "k = Suc j" using assms(2) by (cases k) auto
  have p: "2 \<le> p" using assms(1) by (simp add: prime_iff)
  have "Suc j * (nat p choose Suc j) = nat p * (nat p - 1 choose j)"
    by (rule binomial_absorption)
  then have "int (Suc j) * int (nat p choose Suc j) = p * int (nat p - 1 choose j)"
    using p by (metis int_nat_eq of_nat_mult order_trans zero_le_numeral)
  then have "p dvd int (Suc j) * int (nat p choose Suc j)" by simp
  moreover have "\<not> p dvd int (Suc j)"
    using assms(3) j by (intro zdvd_not_zless) auto
  ultimately show ?thesis using prime_dvd_mult[OF assms(1)] j by blast
qed

lemma fermat_step:
  assumes "prime p"
  shows "p dvd (a + 1) ^ nat p - a ^ nat p - 1"
proof -
  have p: "2 \<le> p" using assms by (simp add: prime_iff)
  then obtain m where m: "nat p = Suc (Suc m)"
    by (metis Suc_nat_eq_nat_zadd1 add.commute nat_2 nat_mono numeral_2_eq_2 le_Suc_ex add_Suc_right add_Suc plus_nat.add_0)
  define f where "f k = int (nat p choose k) * a ^ k" for k
  have "(a + 1) ^ nat p = (\<Sum>k\<le>nat p. f k)"
    by (simp add: binomial_ring f_def)
  also have "\<dots> = (\<Sum>k\<le>Suc m. f k) + f (Suc (Suc m))"
    unfolding m by (simp only: sum.atMost_Suc)
  also have "(\<Sum>k\<le>Suc m. f k) = f 0 + (\<Sum>i\<le>m. f (Suc i))"
    by (simp only: sum.atMost_Suc_shift)
  finally have "(a + 1) ^ nat p - a ^ nat p - 1 = (\<Sum>i\<le>m. f (Suc i))"
    by (simp add: f_def m)
  moreover have "p dvd (\<Sum>i\<le>m. f (Suc i))"
  proof (rule dvd_sum)
    fix i assume "i \<in> {..m}"
    then have "p dvd int (nat p choose Suc i)"
      using m by (intro prime_dvd_choose[OF assms]) auto
    then show "p dvd f (Suc i)" by (simp add: f_def)
  qed
  ultimately show ?thesis by simp
qed

lemma fermat_nonneg:
  assumes "prime p"
  shows "p dvd int a ^ nat p - int a"
proof (induction a)
  case 0
  have "2 \<le> p" using assms by (simp add: prime_iff)
  then have "0 < nat p" by simp
  then show ?case by (simp add: power_0_left)
next
  case (Suc a)
  have "p dvd ((int a + 1) ^ nat p - int a ^ nat p - 1) + (int a ^ nat p - int a)"
    using fermat_step[OF assms, of "int a"] Suc by (rule dvd_add)
  moreover have "((int a + 1) ^ nat p - int a ^ nat p - 1) + (int a ^ nat p - int a)
        = int (Suc a) ^ nat p - int (Suc a)"
    by (simp add: add.commute)
  ultimately show ?case by simp
qed

lemma fermat_little:
  assumes "prime p" "\<not> p dvd a"
  shows "a ^ nat (p - 1) mod p = 1"
proof -
  have p: "2 \<le> p" using assms(1) by (simp add: prime_iff)
  define b where "b = nat (a mod p)"
  have b: "int b = a mod p" using p by (simp add: b_def)
  have nb: "\<not> p dvd int b" using assms(2) b by (simp add: dvd_eq_mod_eq_0)
  have "nat p = Suc (nat (p - 1))" using p by simp
  then have "int b ^ nat p - int b = int b * (int b ^ nat (p - 1) - 1)"
    by (simp add: algebra_simps)
  then have "p dvd int b * (int b ^ nat (p - 1) - 1)"
    using fermat_nonneg[OF assms(1), of b] by simp
  then have "p dvd int b ^ nat (p - 1) - 1"
    using prime_dvd_mult[OF assms(1)] nb by blast
  then have "int b ^ nat (p - 1) mod p = 1 mod p"
    by (metis mod_eq_dvd_iff)
  then have "(a mod p) ^ nat (p - 1) mod p = 1" using b p by simp
  then show ?thesis by (simp add: power_mod)
qed

lemma sqrt_one:
  assumes "prime p" "x * x mod p = 1"
  shows "x mod p = 1 \<or> x mod p = p - 1"
proof -
  have p: "2 \<le> p" using assms(1) by (simp add: prime_iff)
  have "x * x mod p = 1 mod p" using assms(2) p by simp
  then have "p dvd x * x - 1" by (simp add: mod_eq_dvd_iff)
  moreover have "x * x - 1 = (x - 1) * (x + 1)" by (simp add: algebra_simps)
  ultimately have "p dvd x - 1 \<or> p dvd x + 1"
    using prime_dvd_mult[OF assms(1)] by simp
  then show ?thesis
  proof
    assume "p dvd x - 1"
    then have "x mod p = 1 mod p" by (simp add: mod_eq_dvd_iff)
    then show ?thesis using p by simp
  next
    assume "p dvd x + 1"
    then have "p dvd (x + 1) - p" by (rule dvd_diff) simp
    moreover have "(x + 1) - p = x - (p - 1)" by simp
    ultimately have "p dvd x - (p - 1)" by simp
    then have "x mod p = (p - 1) mod p" by (simp only: mod_eq_dvd_iff)
    moreover have "(p - 1) mod p = p - 1" using p by (intro mod_pos_pos_trivial) auto
    ultimately show ?thesis by simp
  qed
qed

section \<open>The Miller-Rabin test\<close>

lemma halve_pos:
  "0 < d \<Longrightarrow> \<exists>r' d'. halve r d = Some (r', d') \<and> r \<le> r' \<and> d' mod 2 = 1 \<and> 0 < d'
      \<and> d = 2 ^ nat (r' - r) * d'"
proof (induction "nat d" arbitrary: r d rule: less_induct)
  case less
  show ?case
  proof (cases "d mod 2 = 0")
    case False
    then have "halve r d = Some (r, d)" by (subst halve.simps) simp
    moreover have "d mod 2 = 1" using False by presburger
    ultimately show ?thesis using less.prems by simp
  next
    case True
    then have h: "halve r d = halve (r + 1) (d div 2)" by (subst halve.simps) simp
    have pos: "0 < d div 2" using True less.prems by presburger
    have "nat (d div 2) < nat d" using less.prems pos by simp
    from less.hyps[OF this pos, of "r + 1"] obtain r' d' where
      r': "halve (r + 1) (d div 2) = Some (r', d')" "r + 1 \<le> r'" "d' mod 2 = 1" "0 < d'"
          "d div 2 = 2 ^ nat (r' - (r + 1)) * d'" by blast
    have "nat (r' - r) = Suc (nat (r' - (r + 1)))" using r'(2) by simp
    moreover have "d = 2 * (d div 2)" using True by presburger
    ultimately have "d = 2 ^ nat (r' - r) * d'" using r'(5) by simp
    then show ?thesis using h r' by auto
  qed
qed

lemma squarings_total: "n \<noteq> 0 \<Longrightarrow> \<exists>b. squarings c x n = Inr b"
  by (induction c arbitrary: x) (auto simp: python_pow_def)

lemma squarings_prime:
  assumes "prime p"
  shows "0 \<le> x \<Longrightarrow> x < p \<Longrightarrow> x \<noteq> 1 \<Longrightarrow> x \<noteq> p - 1 \<Longrightarrow> x ^ (2 ^ Suc c) mod p = 1
         \<Longrightarrow> squarings c x p = Inr True"
proof (induction c arbitrary: x)
  case 0
  then have "x * x mod p = 1" by (simp add: power2_eq_square)
  then have "x mod p = 1 \<or> x mod p = p - 1" by (rule sqrt_one[OF assms])
  then show ?case using 0 by simp
next
  case (Suc c)
  have p: "2 \<le> p" using assms by (simp add: prime_iff)
  define y where "y = x ^ 2 mod p"
  have pw: "python_pow x 2 p = Inr y" using p by (simp add: python_pow_def y_def)
  show ?case
  proof (cases "y = p - 1")
    case True
    then show ?thesis using pw by simp
  next
    case False
    have y1: "y \<noteq> 1"
    proof
      assume "y = 1"
      then have "x * x mod p = 1" by (simp add: y_def power2_eq_square)
      then have "x mod p = 1 \<or> x mod p = p - 1" by (rule sqrt_one[OF assms])
      then show False using Suc.prems by simp
    qed
    have "y ^ (2 ^ Suc c) mod p = (x ^ 2) ^ (2 ^ Suc c) mod p"
      by (simp add: y_def power_mod)
    also have "\<dots> = x ^ (2 ^ Suc (Suc c)) mod p"
      by (simp add: power_mult [symmetric])
    finally have "y ^ (2 ^ Suc c) mod p = 1" using Suc.prems by simp
    moreover have "0 \<le> y" "y < p" using p by (simp_all add: y_def)
    ultimately have "squarings c y p = Inr True" using y1 False by (intro Suc.IH)
    then show ?thesis using pw False by simp
  qed
qed

lemma round_passes_prime:
  assumes "prime p" "halve 0 (p - 1) = Some (r, d)" "\<not> p dvd a" "p mod 2 = 1"
  shows "round_passes p r d a = Inr True"
proof -
  have p: "2 \<le> p" using assms(1) by (simp add: prime_iff)
  then have p3: "3 \<le> p" using assms(4) by presburger
  from halve_pos[of "p - 1" 0] p obtain r' d' where
    h: "halve 0 (p - 1) = Some (r', d')" "0 \<le> r'" "d' mod 2 = 1" "0 < d'"
       "p - 1 = 2 ^ nat (r' - 0) * d'" by auto
  have rd: "r' = r" "d' = d" using h(1) assms(2) by simp_all
  have fact: "p - 1 = 2 ^ nat r * d" using h(5) rd by simp
  have r1: "1 \<le> r"
  proof (rule ccontr)
    assume "\<not> 1 \<le> r"
    then have "nat r = 0" by simp
    then have "p - 1 = d" using fact by simp
    then show False using h(3) rd assms(4) by presburger
  qed
  have dpos: "0 < d" "0 \<le> r" using h rd by simp_all
  define x where "x = a ^ nat d mod p"
  have pw: "python_pow a (nat d) p = Inr x" using p by (simp add: python_pow_def x_def)
  have "nat (p - 1) = nat d * 2 ^ nat r"
    using fact dpos by (simp add: nat_mult_distrib nat_power_eq mult.commute)
  then have "a ^ nat (p - 1) = (a ^ nat d) ^ (2 ^ nat r)" by (simp add: power_mult)
  then have "(a ^ nat d) ^ (2 ^ nat r) mod p = 1"
    using fermat_little[OF assms(1,3)] by simp
  then have xr: "x ^ (2 ^ nat r) mod p = 1" by (simp add: x_def power_mod)
  show ?thesis
  proof (cases "x = 1 \<or> x = p - 1")
    case True
    then show ?thesis using pw by (auto simp: round_passes_def)
  next
    case False
    have "Suc (nat (r - 1)) = nat r" using r1 by simp
    then have "x ^ (2 ^ Suc (nat (r - 1))) mod p = 1" using xr by simp
    moreover have "0 \<le> x" "x < p" using p by (simp_all add: x_def)
    ultimately have "squarings (nat (r - 1)) x p = Inr True"
      using False by (intro squarings_prime[OF assms(1)]) auto
    then show ?thesis using pw False by (simp add: round_passes_def)
  qed
qed

lemma draw_in_range:
  assumes "5 \<le> n"
  shows "randrange 2 (n - 1) g = Inr (2 + int (g 0) mod (n - 3), \<lambda>i. g (Suc i))"
    and "2 \<le> 2 + int (g 0) mod (n - 3)" and "2 + int (g 0) mod (n - 3) \<le> n - 2"
proof -
  have "n - 1 - 2 = n - 3" by simp
  then show "randrange 2 (n - 1) g = Inr (2 + int (g 0) mod (n - 3), \<lambda>i. g (Suc i))"
    using assms by (simp add: randrange_def)
  have "0 \<le> int (g 0) mod (n - 3)" using assms by simp
  then show "2 \<le> 2 + int (g 0) mod (n - 3)" by simp
  have "int (g 0) mod (n - 3) < n - 3" using assms by simp
  then show "2 + int (g 0) mod (n - 3) \<le> n - 2" by simp
qed

lemma rounds_prime:
  assumes "prime p" "halve 0 (p - 1) = Some (r, d)" "5 \<le> p" "p mod 2 = 1"
  shows "rounds k p r d g = Inr (True, \<lambda>i. g (i + k))"
proof (induction k arbitrary: g)
  case 0
  then show ?case by simp
next
  case (Suc k)
  define a where "a = 2 + int (g 0) mod (p - 3)"
  have dr: "randrange 2 (p - 1) g = Inr (a, \<lambda>i. g (Suc i))" and "2 \<le> a" "a \<le> p - 2"
    unfolding a_def using draw_in_range[OF assms(3)] by auto
  then have "\<not> p dvd a" by (intro zdvd_not_zless) auto
  then have "round_passes p r d a = Inr True" by (rule round_passes_prime[OF assms(1,2) _ assms(4)])
  then show ?case using dr Suc.IH[of "\<lambda>i. g (Suc i)"] by simp
qed

lemma prime_odd:
  assumes "prime p" "p \<noteq> 2"
  shows "p mod 2 = 1"
proof (rule ccontr)
  assume "p mod 2 \<noteq> 1"
  then have "2 dvd p" by presburger
  moreover have "2 < p" using assms by (simp add: prime_iff)
  ultimately show False using assms(1) by (auto simp: prime_iff)
qed

lemma miller_rabin_prime:
  assumes "prime p"
  shows "\<exists>g'. is_prime_miller_rabin p k g = Some (Inr (True, g'))"
proof (cases "p = 2 \<or> p = 3")
  case True
  then show ?thesis by (auto simp: is_prime_miller_rabin_def)
next
  case False
  have p: "2 \<le> p" using assms by (simp add: prime_iff)
  have odd: "p mod 2 = 1" using prime_odd[OF assms] False by simp
  then have p5: "5 \<le> p" using p False by presburger
  from halve_pos[of "p - 1" 0] p5 obtain r d where h: "halve 0 (p - 1) = Some (r, d)" by auto
  have "rounds (nat k) p r d g = Inr (True, \<lambda>i. g (i + nat k))"
    by (rule rounds_prime[OF assms h p5 odd])
  then show ?thesis using p False odd h by (simp add: is_prime_miller_rabin_def)
qed

lemma round_passes_total: "n \<noteq> 0 \<Longrightarrow> \<exists>b. round_passes n r d a = Inr b"
  using squarings_total[of n] by (auto simp: round_passes_def python_pow_def)

lemma rounds_total: "5 \<le> n \<Longrightarrow> \<exists>b g'. rounds k n r d g = Inr (b, g')"
proof (induction k arbitrary: g)
  case 0
  then show ?case by auto
next
  case (Suc k)
  obtain b where b: "round_passes n r d (2 + int (g 0) mod (n - 3)) = Inr b"
    using round_passes_total[of n] Suc.prems by fastforce
  show ?case using draw_in_range(1)[OF Suc.prems, of g] b Suc.IH[OF Suc.prems, of "\<lambda>i. g (Suc i)"]
    by auto
qed

lemma miller_rabin_total: "\<exists>b g'. is_prime_miller_rabin n k g = Some (Inr (b, g'))"
proof (cases "n < 2 \<or> n = 2 \<or> n = 3 \<or> n mod 2 = 0")
  case True
  then show ?thesis by (auto simp: is_prime_miller_rabin_def)
next
  case False
  then have n5: "5 \<le> n" by presburger
  from halve_pos[of "n - 1" 0] n5 obtain r d where h: "halve 0 (n - 1) = Some (r, d)" by auto
  then show ?thesis using False rounds_total[OF n5, of "nat k" r d g]
    by (auto simp: is_prime_miller_rabin_def)
qed

lemma rounds_all_pass:
  assumes "5 \<le> n"
  shows "\<exists>g'. rounds k n r d g =
           Inr (\<forall>i<k. round_passes n r d (2 + int (g i) mod (n - 3)) = Inr True, g')"
proof (induction k arbitrary: g)
  case 0
  then show ?case by simp
next
  case (Suc k)
  let ?P = "\<lambda>v. round_passes n r d (2 + int v mod (n - 3)) = Inr True"
  have dr: "randrange 2 (n - 1) g = Inr (2 + int (g 0) mod (n - 3), \<lambda>i. g (Suc i))"
    by (rule draw_in_range(1)[OF assms])
  obtain b where b: "round_passes n r d (2 + int (g 0) mod (n - 3)) = Inr b"
    using round_passes_total[of n] assms by fastforce
  have split: "(\<forall>i<Suc k. ?P (g i)) \<longleftrightarrow> ?P (g 0) \<and> (\<forall>i<k. ?P (g (Suc i)))"
    by (metis less_Suc_eq_0_disj)
  show ?case
  proof (cases b)
    case True
    from Suc.IH[of "\<lambda>i. g (Suc i)"] obtain g' where
      "rounds k n r d (\<lambda>i. g (Suc i)) = Inr (\<forall>i<k. ?P (g (Suc i)), g')" by blast
    then show ?thesis using dr b True split by simp
  next
    case False
    then show ?thesis using dr b split by simp
  qed
qed

lemma not_prime_proper_divisor:
  assumes "2 \<le> n" "\<not> prime n"
  shows "\<exists>d. 1 < d \<and> d < n \<and> d dvd n"
  using assms by (auto simp: prime_iff)

text \<open>
  Claim C2. The test has no false negative: for a prime \<open>n\<close>, every round count and every
  sequence of draws, \<open>is_prime_miller_rabin\<close> returns \<open>True\<close>. Put the other way round,
  a result \<open>False\<close> is a certificate that \<open>n\<close> is not a prime, and for \<open>n \<ge> 2\<close> that
  it has a proper divisor.
\<close>

theorem miller_rabin_never_rejects_prime:
  "(prime n \<longrightarrow> (\<exists>g'. is_prime_miller_rabin n k g = Some (Inr (True, g')))) \<and>
   (is_prime_miller_rabin n k g = Some (Inr (False, g')) \<longrightarrow> \<not> prime n) \<and>
   (is_prime_miller_rabin n k g = Some (Inr (False, g')) \<and> 2 \<le> n
      \<longrightarrow> (\<exists>d. 1 < d \<and> d < n \<and> d dvd n))"
proof -
  have a: "prime n \<longrightarrow> (\<exists>g'. is_prime_miller_rabin n k g = Some (Inr (True, g')))"
    using miller_rabin_prime by blast
  then have b: "is_prime_miller_rabin n k g = Some (Inr (False, g')) \<longrightarrow> \<not> prime n" by auto
  then have "is_prime_miller_rabin n k g = Some (Inr (False, g')) \<and> 2 \<le> n
      \<longrightarrow> (\<exists>d. 1 < d \<and> d < n \<and> d dvd n)"
    using not_prime_proper_divisor by blast
  with a b show ?thesis by blast
qed

theorem miller_rabin_never_rejects_prime_witness:
  "prime 7 \<and> (\<exists>g'. is_prime_miller_rabin 7 25 (\<lambda>_. 3) = Some (Inr (True, g'))) \<and>
   is_prime_miller_rabin 9 1 (\<lambda>_. 0) = Some (Inr (False, \<lambda>_. 0)) \<and> (2::int) \<le> 9 \<and>
   \<not> prime 9 \<and> (\<exists>d::int. 1 < d \<and> d < 9 \<and> d dvd 9)"
proof -
  have p7: "prime 7" by (simp add: prime_def upto_rec1)
  have r9: "is_prime_miller_rabin 9 1 (\<lambda>_. 0) = Some (Inr (False, \<lambda>_. 0))"
    by (simp add: is_prime_miller_rabin_def halve.simps round_passes_def python_pow_def
        randrange_def eval_nat_numeral)
  show ?thesis
    using miller_rabin_never_rejects_prime[of 7 25 "\<lambda>_. 3"]
      miller_rabin_never_rejects_prime[of 9 1 "\<lambda>_. 0" "\<lambda>_. 0"] p7 r9
    by simp
qed

text \<open>
  Claim C10. With zero rounds the loop over the witnesses never runs, so every odd
  \<open>n \<ge> 5\<close> is reported prime, the composite ones as well (9 in the witness): the
  documented behaviour needs a positive round count.
\<close>

theorem zero_rounds_accept:
  "5 \<le> n \<and> n mod 2 = 1 \<longrightarrow> is_prime_miller_rabin n 0 g = Some (Inr (True, g))"
proof
  assume h: "5 \<le> n \<and> n mod 2 = 1"
  from halve_pos[of "n - 1" 0] h obtain r d where "halve 0 (n - 1) = Some (r, d)" by auto
  then show "is_prime_miller_rabin n 0 g = Some (Inr (True, g))"
    using h by (simp add: is_prime_miller_rabin_def)
qed

theorem zero_rounds_accept_witness:
  "(5::int) \<le> 9 \<and> (9::int) mod 2 = 1 \<and> \<not> prime 9 \<and>
   is_prime_miller_rabin 9 0 (\<lambda>_. 0) = Some (Inr (True, \<lambda>_. 0))"
proof -
  have "\<not> prime 9" by (simp add: prime_def upto_rec1)
  then show ?thesis using zero_rounds_accept[of 9 "\<lambda>_. 0"] by simp
qed

lemma halve_two_exponent:
  "0 < d \<Longrightarrow> halve r d = Some (r + int (two_exponent (nat d)), int (odd_part (nat d)))"
proof (induction "nat d" arbitrary: r d rule: less_induct)
  case less
  show ?case
  proof (cases "d mod 2 = 0")
    case False
    then have "odd d" by presburger
    then have od: "odd (nat d)" using less.prems by (simp add: even_nat_iff)
    have "two_exponent (nat d) = 0" using od by (subst two_exponent.simps) simp
    moreover have "odd_part (nat d) = nat d" using od by (subst odd_part.simps) simp
    moreover have "halve r d = Some (r, d)" using False by (subst halve.simps) simp
    ultimately show ?thesis using less.prems by simp
  next
    case True
    then have "even d" by presburger
    then have ev: "even (nat d)" using less.prems by (simp add: even_nat_iff)
    have pos: "0 < d div 2" using True less.prems by presburger
    have lt: "nat (d div 2) < nat d" using less.prems pos by simp
    have nd: "nat d \<noteq> 0" using less.prems by simp
    have half: "nat d div 2 = nat (d div 2)" using less.prems by (simp add: nat_div_distrib)
    have "two_exponent (nat d) = Suc (two_exponent (nat (d div 2)))"
      using ev nd half by (subst two_exponent.simps) simp
    moreover have "odd_part (nat d) = odd_part (nat (d div 2))"
      using ev nd half by (subst odd_part.simps) simp
    moreover have "halve r d = halve (r + 1) (d div 2)" using True by (subst halve.simps) simp
    ultimately show ?thesis using less.hyps[OF lt pos, of "r + 1"] by simp
  qed
qed

lemma two_exponent_odd_part: "0 < m \<Longrightarrow> m = 2 ^ two_exponent m * odd_part m \<and> odd (odd_part m)"
proof (induction m rule: less_induct)
  case (less m)
  show ?case
  proof (cases "odd m")
    case True
    have "two_exponent m = 0" using True by (subst two_exponent.simps) simp
    moreover have "odd_part m = m" using True by (subst odd_part.simps) simp
    ultimately show ?thesis using True by simp
  next
    case False
    then have h: "0 < m div 2" "m div 2 < m" using less.prems by auto
    have "two_exponent m = Suc (two_exponent (m div 2))"
      using False less.prems by (subst two_exponent.simps) simp
    moreover have "odd_part m = odd_part (m div 2)"
      using False less.prems by (subst odd_part.simps) simp
    moreover have "m = 2 * (m div 2)" using False by simp
    ultimately show ?thesis using less.IH[OF h(2) h(1)] by (metis power_Suc mult.assoc)
  qed
qed

lemma squarings_spec:
  assumes "2 \<le> n"
  shows "squarings c x n = Inr (\<exists>t. 1 \<le> t \<and> t \<le> c \<and> x ^ (2 ^ t) mod n = n - 1)"
proof (induction c arbitrary: x)
  case 0
  then show ?case by simp
next
  case (Suc c)
  define y where "y = x ^ 2 mod n"
  have pw: "python_pow x 2 n = Inr y" using assms by (simp add: python_pow_def y_def)
  have shift: "\<And>t. y ^ (2 ^ t) mod n = x ^ (2 ^ Suc t) mod n"
    by (simp add: y_def power_mod power_mult [symmetric])
  show ?case
  proof (cases "y = n - 1")
    case True
    then have "1 \<le> (1::nat) \<and> (1::nat) \<le> Suc c \<and> x ^ (2 ^ (1::nat)) mod n = n - 1"
      by (simp add: y_def)
    then have "\<exists>t. 1 \<le> t \<and> t \<le> Suc c \<and> x ^ (2 ^ t) mod n = n - 1" by blast
    then show ?thesis using pw True by simp
  next
    case False
    have "(\<exists>t. 1 \<le> t \<and> t \<le> Suc c \<and> x ^ (2 ^ t) mod n = n - 1)
        \<longleftrightarrow> (\<exists>t. 1 \<le> t \<and> t \<le> c \<and> y ^ (2 ^ t) mod n = n - 1)" (is "?L \<longleftrightarrow> ?R")
    proof
      assume ?L
      then obtain t where t: "1 \<le> t" "t \<le> Suc c" "x ^ (2 ^ t) mod n = n - 1" by blast
      have "t \<noteq> 1" using t(3) False by (auto simp: y_def)
      then obtain s where s: "t = Suc s" "1 \<le> s" using t(1) by (cases t) auto
      then have "1 \<le> s \<and> s \<le> c \<and> y ^ (2 ^ s) mod n = n - 1" using t shift by simp
      then show ?R by blast
    next
      assume ?R
      then obtain s where "1 \<le> s" "s \<le> c" "y ^ (2 ^ s) mod n = n - 1" by blast
      then have "1 \<le> Suc s \<and> Suc s \<le> Suc c \<and> x ^ (2 ^ Suc s) mod n = n - 1"
        using shift by simp
      then show ?L by blast
    qed
    then show ?thesis using pw False Suc.IH[of y] by simp
  qed
qed

lemma round_passes_strong_liar:
  assumes "5 \<le> n" "n mod 2 = 1" "halve 0 (n - 1) = Some (r, d)"
  shows "round_passes n r d a = Inr (strong_liar n a)"
proof -
  let ?m = "nat (n - 1)"
  let ?r = "two_exponent ?m" and ?d = "odd_part ?m"
  have m: "0 < ?m" using assms(1) by simp
  have "halve 0 (n - 1) = Some (0 + int ?r, int ?d)"
    using assms(1) by (intro halve_two_exponent) simp
  then have rd: "r = int ?r" "d = int ?d" using assms(3) by simp_all
  have fact: "?m = 2 ^ ?r * ?d" "odd ?d" using two_exponent_odd_part[OF m] by simp_all
  have r1: "1 \<le> ?r"
  proof (rule ccontr)
    assume "\<not> 1 \<le> ?r"
    then have "?r = 0" by simp
    then have "2 ^ ?r * ?d = ?d" by simp
    then have "?m = ?d" using fact(1) by simp
    then have "odd ?m" using fact(2) by simp
    then have "odd (n - 1)" using assms(1) by (simp add: even_nat_iff)
    then show False using assms(2) by presburger
  qed
  define x where "x = a ^ ?d mod n"
  have pw: "python_pow a (nat d) n = Inr x" using assms(1) by (simp add: python_pow_def x_def rd)
  have xt: "\<And>t. x ^ (2 ^ t) mod n = a ^ (?d * 2 ^ t) mod n"
    by (simp add: x_def power_mod power_mult)
  have sq: "squarings (nat (r - 1)) x n
      = Inr (\<exists>t. 1 \<le> t \<and> t \<le> nat (r - 1) \<and> x ^ (2 ^ t) mod n = n - 1)"
    using assms(1) by (intro squarings_spec) simp
  have nr: "nat (r - 1) = ?r - 1" using rd by simp
  have liar: "strong_liar n a \<longleftrightarrow> (x = 1 \<or> (\<exists>j<?r. a ^ (?d * 2 ^ j) mod n = n - 1))"
    by (auto simp: strong_liar_def Let_def x_def list_ex_iff)
  have split: "(\<exists>j<?r. a ^ (?d * 2 ^ j) mod n = n - 1)
      \<longleftrightarrow> (x = n - 1 \<or> (\<exists>t. 1 \<le> t \<and> t \<le> ?r - 1 \<and> x ^ (2 ^ t) mod n = n - 1))"
    (is "?L \<longleftrightarrow> ?A \<or> ?B")
  proof
    assume ?L
    then obtain j where j: "j < ?r" "a ^ (?d * 2 ^ j) mod n = n - 1" by blast
    show "?A \<or> ?B"
    proof (cases j)
      case 0
      then show ?thesis using j by (simp add: x_def)
    next
      case (Suc i)
      then have "1 \<le> j" "j \<le> ?r - 1" using j(1) by simp_all
      moreover have "x ^ (2 ^ j) mod n = n - 1" using j(2) by (simp only: xt)
      ultimately have "1 \<le> j \<and> j \<le> ?r - 1 \<and> x ^ (2 ^ j) mod n = n - 1" by simp
      then show ?thesis by blast
    qed
  next
    assume "?A \<or> ?B"
    then show ?L
    proof
      assume ?A
      then have "0 < ?r \<and> a ^ (?d * 2 ^ 0) mod n = n - 1" using r1 by (simp add: x_def)
      then show ?L by blast
    next
      assume ?B
      then obtain t where t: "1 \<le> t" "t \<le> ?r - 1" "x ^ (2 ^ t) mod n = n - 1" by blast
      have "t < ?r" using t(1,2) r1 by simp
      moreover have "a ^ (?d * 2 ^ t) mod n = n - 1" using t(3) by (simp only: xt)
      ultimately have "t < ?r \<and> a ^ (?d * 2 ^ t) mod n = n - 1" by simp
      then show ?L by blast
    qed
  qed
  show ?thesis
  proof (cases "x = 1 \<or> x = n - 1")
    case True
    then have "strong_liar n a" using liar split by blast
    then show ?thesis using pw True by (simp add: round_passes_def)
  next
    case False
    then have "strong_liar n a \<longleftrightarrow> (\<exists>t. 1 \<le> t \<and> t \<le> ?r - 1 \<and> x ^ (2 ^ t) mod n = n - 1)"
      using liar split by blast
    then show ?thesis using pw False sq nr by (simp add: round_passes_def)
  qed
qed

lemma miller_rabin_strong_liars:
  assumes "5 \<le> n" "n mod 2 = 1"
  shows "\<exists>g'. is_prime_miller_rabin n k g =
           Some (Inr (\<forall>i<nat k. strong_liar n (2 + int (g i) mod (n - 3)), g'))"
proof -
  from halve_pos[of "n - 1" 0] assms(1) obtain r d where rd: "halve 0 (n - 1) = Some (r, d)"
    by auto
  from rounds_all_pass[OF assms(1), of "nat k" r d g] obtain g' where
    "rounds (nat k) n r d g =
       Inr (\<forall>i<nat k. round_passes n r d (2 + int (g i) mod (n - 3)) = Inr True, g')" by blast
  then have "rounds (nat k) n r d g =
       Inr (\<forall>i<nat k. strong_liar n (2 + int (g i) mod (n - 3)), g')"
    by (simp add: round_passes_strong_liar[OF assms rd])
  then have "is_prime_miller_rabin n k g =
       Some (Inr (\<forall>i<nat k. strong_liar n (2 + int (g i) mod (n - 3)), g'))"
    using assms rd by (auto simp: is_prime_miller_rabin_def)
  then show ?thesis by blast
qed

lemma strong_liar_25_7: "strong_liar 25 7"
  by (simp add: strong_liar_def two_exponent.simps odd_part.simps Let_def upt_rec)

lemma not_strong_liar_25_2: "\<not> strong_liar 25 2"
  by (simp add: strong_liar_def two_exponent.simps odd_part.simps Let_def upt_rec)

lemma no_strong_liar_9: "\<forall>a::int. 2 \<le> a \<and> a \<le> 9 - 2 \<longrightarrow> \<not> strong_liar 9 a"
proof (intro allI impI)
  fix a :: int assume "2 \<le> a \<and> a \<le> 9 - 2"
  then have "a = 2 \<or> a = 3 \<or> a = 4 \<or> a = 5 \<or> a = 6 \<or> a = 7" by presburger
  then show "\<not> strong_liar 9 a"
    by (auto simp: strong_liar_def two_exponent.simps odd_part.simps Let_def upt_rec)
qed

text \<open>
  Claim C7, as stated, fails: the test is randomised, and a composite passes a round
  whenever the drawn base is a strong liar. For \<open>n = 25\<close> the base 7 is one
  (\<open>7^3 mod 25 = 18\<close> and \<open>18^2 mod 25 = 24\<close>), so the run of 25 rounds that draws 7
  each time reports the composite 25 as prime.
\<close>

theorem miller_rabin_false_positive:
  "\<not> prime 25 \<and> is_prime_miller_rabin 25 25 (\<lambda>_. 5) = Some (Inr (True, \<lambda>_. 5))"
  by (simp add: prime_def upto_rec1 is_prime_miller_rabin_def halve.simps round_passes_def
      python_pow_def randrange_def eval_nat_numeral)

text \<open>
  Claim C7, amended. For every \<open>n\<close>, round count and sequence of draws: \<open>n < 2\<close> gives
  \<open>False\<close>, \<open>n = 2\<close> and \<open>n = 3\<close> give \<open>True\<close>, an even \<open>n > 3\<close> gives \<open>False\<close>, and a
  prime gives \<open>True\<close>. An odd \<open>n \<ge> 5\<close> gives \<open>True\<close> exactly when every drawn base is a
  strong liar for \<open>n\<close>, in the specification's sense of \<open>strong_liar\<close>. So an odd
  composite is returned \<open>False\<close> unless all the drawn bases are strong liars, and one
  with no strong liar in \<open>[2, n - 2]\<close>, such as 9, is returned \<open>False\<close> on every run of
  at least one round.
\<close>

theorem miller_rabin_verdict:
  "(n < 2 \<longrightarrow> is_prime_miller_rabin n k g = Some (Inr (False, g))) \<and>
   (n = 2 \<or> n = 3 \<longrightarrow> is_prime_miller_rabin n k g = Some (Inr (True, g))) \<and>
   (3 < n \<and> n mod 2 = 0 \<longrightarrow> is_prime_miller_rabin n k g = Some (Inr (False, g))) \<and>
   (prime n \<longrightarrow> (\<exists>g'. is_prime_miller_rabin n k g = Some (Inr (True, g')))) \<and>
   (5 \<le> n \<and> n mod 2 = 1 \<longrightarrow>
      (\<exists>g'. is_prime_miller_rabin n k g =
         Some (Inr (\<forall>i<nat k. strong_liar n (2 + int (g i) mod (n - 3)), g')))) \<and>
   (5 \<le> n \<and> n mod 2 = 1 \<and> 0 < k \<and> (\<forall>a. 2 \<le> a \<and> a \<le> n - 2 \<longrightarrow> \<not> strong_liar n a) \<longrightarrow>
      (\<exists>g'. is_prime_miller_rabin n k g = Some (Inr (False, g'))))"
proof (intro conjI impI)
  assume h: "5 \<le> n \<and> n mod 2 = 1"
  then show "\<exists>g'. is_prime_miller_rabin n k g =
         Some (Inr (\<forall>i<nat k. strong_liar n (2 + int (g i) mod (n - 3)), g'))"
    by (intro miller_rabin_strong_liars) auto
next
  assume h: "5 \<le> n \<and> n mod 2 = 1 \<and> 0 < k \<and> (\<forall>a. 2 \<le> a \<and> a \<le> n - 2 \<longrightarrow> \<not> strong_liar n a)"
  then have n5: "5 \<le> n" and od: "n mod 2 = 1" by simp_all
  from miller_rabin_strong_liars[OF n5 od, of k g] obtain g' where
    g': "is_prime_miller_rabin n k g =
         Some (Inr (\<forall>i<nat k. strong_liar n (2 + int (g i) mod (n - 3)), g'))" by blast
  have "2 \<le> 2 + int (g 0) mod (n - 3)" "2 + int (g 0) mod (n - 3) \<le> n - 2"
    using draw_in_range(2,3)[OF n5, of g] by simp_all
  then have "\<not> strong_liar n (2 + int (g 0) mod (n - 3))" using h by blast
  moreover have "0 < nat k" using h by simp
  ultimately have "\<not> (\<forall>i<nat k. strong_liar n (2 + int (g i) mod (n - 3)))" by blast
  then show "\<exists>g'. is_prime_miller_rabin n k g = Some (Inr (False, g'))" using g' by auto
next
  assume "prime n"
  then show "\<exists>g'. is_prime_miller_rabin n k g = Some (Inr (True, g'))"
    by (rule miller_rabin_prime)
qed (auto simp: is_prime_miller_rabin_def)

theorem miller_rabin_verdict_witness:
  "is_prime_miller_rabin 1 25 (\<lambda>_. 5) = Some (Inr (False, \<lambda>_. 5)) \<and>
   is_prime_miller_rabin 3 25 (\<lambda>_. 5) = Some (Inr (True, \<lambda>_. 5)) \<and>
   is_prime_miller_rabin 9998 25 (\<lambda>_. 5) = Some (Inr (False, \<lambda>_. 5)) \<and>
   prime 7 \<and> (\<exists>g'. is_prime_miller_rabin 7 25 (\<lambda>_. 5) = Some (Inr (True, g'))) \<and>
   strong_liar 25 7 \<and> (\<exists>g'. is_prime_miller_rabin 25 25 (\<lambda>_. 5) = Some (Inr (True, g'))) \<and>
   \<not> strong_liar 25 2 \<and> (\<exists>g'. is_prime_miller_rabin 25 25 (\<lambda>_. 0) = Some (Inr (False, g'))) \<and>
   list_all (\<lambda>a. \<not> strong_liar 9 a) [2..9 - 2] \<and>
   (\<exists>g'. is_prime_miller_rabin 9 25 (\<lambda>_. 5) = Some (Inr (False, g')))"
proof -
  have p7: "prime 7" by (simp add: prime_def upto_rec1)
  have l9: "\<forall>a::int. 2 \<le> a \<and> a \<le> 9 - 2 \<longrightarrow> \<not> strong_liar 9 a" by (rule no_strong_liar_9)
  then have l9': "list_all (\<lambda>a. \<not> strong_liar 9 a) [2..9 - 2]" by (simp add: list_all_iff)
  have a: "\<exists>g'. is_prime_miller_rabin 25 25 (\<lambda>_. 5) = Some (Inr (True, g'))"
    using miller_rabin_verdict[of 25 25 "\<lambda>_. 5"] strong_liar_25_7 by simp
  have "(0::nat) < nat 25 \<and> \<not> strong_liar 25 2" using not_strong_liar_25_2 by simp
  then have "\<not> (\<forall>i<nat 25. strong_liar 25 2)" by blast
  moreover have "(2::int) + int 0 mod (25 - 3) = 2" by simp
  moreover have "(5::int) \<le> 25 \<and> (25::int) mod 2 = 1" by simp
  ultimately have b: "\<exists>g'. is_prime_miller_rabin 25 25 (\<lambda>_. 0) = Some (Inr (False, g'))"
    using miller_rabin_verdict[of 25 25 "\<lambda>_. 0"] by fastforce
  have c: "\<exists>g'. is_prime_miller_rabin 9 25 (\<lambda>_. 5) = Some (Inr (False, g'))"
    using miller_rabin_verdict[of 9 25 "\<lambda>_. 5"] l9 by simp
  show ?thesis
    using miller_rabin_verdict[of 1 25 "\<lambda>_. 5"] miller_rabin_verdict[of 3 25 "\<lambda>_. 5"]
      miller_rabin_verdict[of 9998 25 "\<lambda>_. 5"] miller_rabin_verdict[of 7 25 "\<lambda>_. 5"]
      p7 a b c l9' strong_liar_25_7 not_strong_liar_25_2
    by simp
qed

section \<open>The sieve\<close>

lemma setitem_in: "0 \<le> i \<Longrightarrow> i < int (length xs) \<Longrightarrow> setitem xs i v = Inr (xs[nat i := v])"
  by (simp add: setitem_def)

lemma getitem_in: "0 \<le> i \<Longrightarrow> i < int (length xs) \<Longrightarrow> getitem xs i = Inr (xs ! nat i)"
  by (simp add: getitem_def)

lemma set_range_up:
  "0 < s \<Longrightarrow> set (range_up a b s) = {j. a \<le> j \<and> j < b \<and> s dvd (j - a)}"
proof (induction a b s rule: range_up.induct)
  case (1 start stop step)
  show ?case
  proof (cases "start < stop")
    case False
    then show ?thesis by (subst range_up.simps) auto
  next
    case True
    have IH: "set (range_up (start + step) stop step)
              = {j. start + step \<le> j \<and> j < stop \<and> step dvd (j - (start + step))}"
      using 1 True by simp
    have "{j. start \<le> j \<and> j < stop \<and> step dvd (j - start)}
        = insert start {j. start + step \<le> j \<and> j < stop \<and> step dvd (j - (start + step))}"
      (is "?L = insert start ?R")
    proof (intro set_eqI iffI)
      fix j assume "j \<in> ?L"
      then have j: "start \<le> j" "j < stop" "step dvd (j - start)" by auto
      show "j \<in> insert start ?R"
      proof (cases "j = start")
        case False
        then have "0 < j - start" using j by simp
        then have "step \<le> j - start" using j(3) by (rule zdvd_imp_le[rotated])
        moreover have "step dvd (j - start) - step" using j(3) by (rule dvd_diff) simp
        moreover have "j - start - step = j - (start + step)" by simp
        ultimately show ?thesis using j by auto
      qed simp
    next
      fix j assume "j \<in> insert start ?R"
      then consider "j = start" | "j \<in> ?R" by auto
      then show "j \<in> ?L"
      proof cases
        case 1
        then show ?thesis using True by simp
      next
        case 2
        then have "step dvd (j - (start + step)) + step" by (intro dvd_add) auto
        moreover have "j - (start + step) + step = j - start" by simp
        ultimately show ?thesis using 2 "1.prems" by auto
      qed
    qed
    then show ?thesis using IH True "1.prems" by (subst range_up.simps) simp
  qed
qed

lemma mark_multiples_ok:
  "\<forall>j\<in>set js. 0 \<le> j \<and> j < int (length t) \<Longrightarrow>
   \<exists>t'. mark_multiples t js = Inr t' \<and> length t' = length t \<and>
        (\<forall>k<length t. t' ! k = (t ! k \<and> int k \<notin> set js))"
proof (induction js arbitrary: t)
  case Nil
  then show ?case by simp
next
  case (Cons j js)
  have j: "0 \<le> j" "j < int (length t)" using Cons.prems by auto
  have s: "setitem t j False = Inr (t[nat j := False])" using j by (rule setitem_in)
  have "\<forall>i\<in>set js. 0 \<le> i \<and> i < int (length (t[nat j := False]))" using Cons.prems by simp
  from Cons.IH[OF this] obtain t' where t':
    "mark_multiples (t[nat j := False]) js = Inr t'" "length t' = length t"
    "\<forall>k<length t. t' ! k = ((t[nat j := False]) ! k \<and> int k \<notin> set js)" by auto
  have "\<forall>k<length t. t' ! k = (t ! k \<and> int k \<notin> set (j # js))"
  proof (intro allI impI)
    fix k assume k: "k < length t"
    have "int k = j \<longleftrightarrow> k = nat j" using j by auto
    then show "t' ! k = (t ! k \<and> int k \<notin> set (j # js))"
      using t'(3) k by (auto simp: nth_list_update)
  qed
  then show ?case using s t'(1,2) by simp
qed

lemma unmarked_of_ok:
  "\<forall>i\<in>set is. 0 \<le> i \<and> i < int (length t) \<Longrightarrow>
   unmarked_of t is = Inr (filter (\<lambda>i. t ! nat i) is)"
  by (induction "is") (simp_all add: getitem_in)

lemma dvd_minus_square: "(a::int) dvd (j - a * a) \<longleftrightarrow> a dvd j"
  by (metis dvd_diff_left_iff dvdI)

lemma bound_step:
  fixes a j :: int
  assumes "2 \<le> a"
  shows "(\<exists>d. 2 \<le> d \<and> d \<le> a \<and> d dvd j \<and> d * d \<le> j) \<longleftrightarrow>
         (\<exists>d. 2 \<le> d \<and> d \<le> a - 1 \<and> d dvd j \<and> d * d \<le> j) \<or> (a dvd j \<and> a * a \<le> j)"
  (is "?A \<longleftrightarrow> ?B \<or> ?C")
proof
  assume ?A
  then obtain d where d: "2 \<le> d" "d \<le> a" "d dvd j" "d * d \<le> j" by blast
  show "?B \<or> ?C"
  proof (cases "d = a")
    case True
    then show ?thesis using d(3,4) by blast
  next
    case False
    then have "2 \<le> d \<and> d \<le> a - 1 \<and> d dvd j \<and> d * d \<le> j" using d by simp
    then show ?thesis by blast
  qed
next
  assume "?B \<or> ?C"
  then show ?A
  proof
    assume ?B
    then obtain d where "2 \<le> d" "d \<le> a - 1" "d dvd j" "d * d \<le> j" by blast
    then have "2 \<le> d \<and> d \<le> a \<and> d dvd j \<and> d * d \<le> j" by simp
    then show ?A by blast
  next
    assume ?C
    then have "2 \<le> a \<and> a \<le> a \<and> a dvd j \<and> a * a \<le> j" using assms by simp
    then show ?A by blast
  qed
qed

lemma bound_skip:
  fixes a j e :: int
  assumes "2 \<le> a" "2 \<le> e" "e \<le> a - 1" "e dvd a" "e * e \<le> a"
  shows "(a dvd j \<and> a * a \<le> j) \<longrightarrow> (\<exists>d. 2 \<le> d \<and> d \<le> a - 1 \<and> d dvd j \<and> d * d \<le> j)"
proof
  assume h: "a dvd j \<and> a * a \<le> j"
  have "e dvd j" using assms(4) h by (blast intro: dvd_trans)
  moreover have "a * 1 \<le> a * a" using assms(1) by (intro mult_left_mono) auto
  then have "e * e \<le> j" using assms(5) h by simp
  ultimately have "2 \<le> e \<and> e \<le> a - 1 \<and> e dvd j \<and> e * e \<le> j" using assms by simp
  then show "\<exists>d. 2 \<le> d \<and> d \<le> a - 1 \<and> d dvd j \<and> d * d \<le> j" by blast
qed

lemma sieved_mark:
  assumes inv: "sieved n (a - 1) t" and a: "2 \<le> a" "a \<le> n"
  shows "\<exists>t'. mark_multiples t (range_up (a * a) (n + 1) a) = Inr t' \<and> sieved n a t'"
proof -
  have len: "int (length t) = n + 1" using inv by (simp add: sieved_def)
  have tab: "\<And>j. 0 \<le> j \<Longrightarrow> j \<le> n \<Longrightarrow>
      t ! nat j = (2 \<le> j \<and> \<not> (\<exists>d. 2 \<le> d \<and> d \<le> a - 1 \<and> d dvd j \<and> d * d \<le> j))"
    using inv by (simp add: sieved_def)
  let ?js = "range_up (a * a) (n + 1) a"
  have sjs: "set ?js = {j. a * a \<le> j \<and> j < n + 1 \<and> a dvd (j - a * a)}"
    using a by (intro set_range_up) simp
  have "\<forall>j\<in>set ?js. 0 \<le> j \<and> j < int (length t)"
  proof
    fix j assume "j \<in> set ?js"
    then have "a * a \<le> j" "j < n + 1" using sjs by auto
    moreover have "0 \<le> a * a" by simp
    ultimately show "0 \<le> j \<and> j < int (length t)" using len by linarith
  qed
  from mark_multiples_ok[OF this] obtain t' where t':
    "mark_multiples t ?js = Inr t'" "length t' = length t"
    "\<forall>k<length t. t' ! k = (t ! k \<and> int k \<notin> set ?js)" by auto
  have "sieved n a t'"
    unfolding sieved_def
  proof (intro conjI allI impI)
    show "int (length t') = n + 1" using t'(2) len by simp
  next
    fix j assume j: "0 \<le> j \<and> j \<le> n"
    then have "nat j < length t" using len by auto
    then have "t' ! nat j = (t ! nat j \<and> int (nat j) \<notin> set ?js)" using t'(3) by blast
    then have "t' ! nat j = (t ! nat j \<and> j \<notin> set ?js)" using j by simp
    moreover have "j \<in> set ?js \<longleftrightarrow> a dvd j \<and> a * a \<le> j"
      using sjs j by (auto simp: dvd_minus_square)
    moreover have "t ! nat j = (2 \<le> j \<and> \<not> (\<exists>d. 2 \<le> d \<and> d \<le> a - 1 \<and> d dvd j \<and> d * d \<le> j))"
      using tab j by blast
    ultimately show "t' ! nat j = (2 \<le> j \<and> \<not> (\<exists>d. 2 \<le> d \<and> d \<le> a \<and> d dvd j \<and> d * d \<le> j))"
      using bound_step[OF a(1), of j] by blast
  qed
  then show ?thesis using t'(1) by blast
qed

lemma sieved_skip:
  assumes inv: "sieved n (a - 1) t" and a: "2 \<le> a" "a \<le> n" and un: "\<not> t ! nat a"
  shows "sieved n a t"
proof -
  have len: "int (length t) = n + 1" using inv by (simp add: sieved_def)
  have tab: "\<And>j. 0 \<le> j \<Longrightarrow> j \<le> n \<Longrightarrow>
      t ! nat j = (2 \<le> j \<and> \<not> (\<exists>d. 2 \<le> d \<and> d \<le> a - 1 \<and> d dvd j \<and> d * d \<le> j))"
    using inv by (simp add: sieved_def)
  have "t ! nat a = (2 \<le> a \<and> \<not> (\<exists>d. 2 \<le> d \<and> d \<le> a - 1 \<and> d dvd a \<and> d * d \<le> a))"
    using a by (intro tab) auto
  then have "\<exists>d. 2 \<le> d \<and> d \<le> a - 1 \<and> d dvd a \<and> d * d \<le> a" using a(1) un by blast
  then obtain e where e: "2 \<le> e" "e \<le> a - 1" "e dvd a" "e * e \<le> a" by blast
  show ?thesis
    unfolding sieved_def
  proof (intro conjI allI impI)
    show "int (length t) = n + 1" by (rule len)
  next
    fix j assume j: "0 \<le> j \<and> j \<le> n"
    have "t ! nat j = (2 \<le> j \<and> \<not> (\<exists>d. 2 \<le> d \<and> d \<le> a - 1 \<and> d dvd j \<and> d * d \<le> j))"
      using tab j by blast
    then show "t ! nat j = (2 \<le> j \<and> \<not> (\<exists>d. 2 \<le> d \<and> d \<le> a \<and> d dvd j \<and> d * d \<le> j))"
      using bound_step[OF a(1), of j] bound_skip[OF a(1) e, of j] by blast
  qed
qed

lemma sieve_loop_sieved:
  assumes "2 \<le> a" "b \<le> n"
  shows "sieved n (a - 1) t \<Longrightarrow> \<exists>t'. sieve_loop n t [a..b] = Inr t' \<and> sieved n (max (a - 1) b) t'"
  using assms(1)
proof (induction "nat (b + 1 - a)" arbitrary: a t)
  case 0
  then have "[a..b] = []" by simp
  moreover have "max (a - 1) b = a - 1" using 0 by simp
  ultimately show ?case using 0 by simp
next
  case (Suc k)
  then have ab: "a \<le> b" by linarith
  then have an: "a \<le> n" using assms(2) by simp
  have up: "[a..b] = a # [a + 1..b]" using ab by (simp add: upto_rec1)
  have len: "int (length t) = n + 1" using Suc.prems by (simp add: sieved_def)
  have g: "getitem t a = Inr (t ! nat a)" using Suc.prems an len by (intro getitem_in) auto
  have r: "range3 (a * a) (n + 1) a = Inr (range_up (a * a) (n + 1) a)"
    using Suc.prems by (simp add: range3_def)
  have k: "k = nat (b + 1 - (a + 1))" using Suc.hyps(2) by linarith
  have mx: "max (a + 1 - 1) b = max (a - 1) b" using ab by simp
  show ?case
  proof (cases "t ! nat a")
    case True
    from sieved_mark[OF Suc.prems(1,2) an] obtain t1 where
      t1: "mark_multiples t (range_up (a * a) (n + 1) a) = Inr t1" "sieved n a t1" by blast
    have "sieved n (a + 1 - 1) t1" using t1(2) by simp
    from Suc.hyps(1)[OF k this] Suc.prems(2) obtain t' where
      "sieve_loop n t1 [a + 1..b] = Inr t'" "sieved n (max (a + 1 - 1) b) t'" by auto
    then show ?thesis using up g r True t1(1) mx by simp
  next
    case False
    have "sieved n (a + 1 - 1) t" using sieved_skip[OF Suc.prems(1,2) an False] by simp
    from Suc.hyps(1)[OF k this] Suc.prems(2) obtain t' where
      "sieve_loop n t [a + 1..b] = Inr t'" "sieved n (max (a + 1 - 1) b) t'" by auto
    then show ?thesis using up g False mx by simp
  qed
qed

lemma isqrt_from_bounds:
  "k * k \<le> m \<Longrightarrow> isqrt_from k m * isqrt_from k m \<le> m \<and> m < (isqrt_from k m + 1) * (isqrt_from k m + 1)"
proof (induction k m rule: isqrt_from.induct)
  case (1 k m)
  show ?case
  proof (cases "(k + 1) * (k + 1) \<le> m")
    case True
    then have "isqrt_from k m = isqrt_from (k + 1) m" by (subst isqrt_from.simps) simp
    then show ?thesis using 1 True by simp
  next
    case False
    then have "isqrt_from k m = k" by (subst isqrt_from.simps) simp
    then show ?thesis using 1 False by simp
  qed
qed

lemma isqrt_bounds:
  assumes "0 \<le> n"
  shows "0 \<le> isqrt n" "isqrt n * isqrt n \<le> n" "n < (isqrt n + 1) * (isqrt n + 1)"
proof -
  define s where "s = isqrt_from 0 (nat n)"
  have b: "s * s \<le> nat n \<and> nat n < (s + 1) * (s + 1)"
    unfolding s_def by (rule isqrt_from_bounds) simp
  have i: "isqrt n = int s" by (simp add: isqrt_def s_def)
  show "0 \<le> isqrt n" by (simp add: i)
  have "int (s * s) \<le> int (nat n)" using b by (simp only: of_nat_le_iff)
  then show "isqrt n * isqrt n \<le> n" using assms by (simp add: i)
  have "int (nat n) < int ((s + 1) * (s + 1))" using b by (simp only: of_nat_less_iff)
  then show "n < (isqrt n + 1) * (isqrt n + 1)" using assms by (simp add: i algebra_simps)
qed

lemma prime_small_divisor:
  assumes "2 \<le> j"
  shows "prime j \<longleftrightarrow> \<not> (\<exists>d. 2 \<le> d \<and> d dvd j \<and> d * d \<le> j)"
proof
  assume p: "prime j"
  show "\<not> (\<exists>d. 2 \<le> d \<and> d dvd j \<and> d * d \<le> j)"
  proof
    assume "\<exists>d. 2 \<le> d \<and> d dvd j \<and> d * d \<le> j"
    then obtain d where d: "2 \<le> d" "d dvd j" "d * d \<le> j" by blast
    have "d * 2 \<le> d * d" using d(1) by (intro mult_left_mono) auto
    then have "d < j" using d by linarith
    then show False using p d by (auto simp: prime_iff)
  qed
next
  assume no: "\<not> (\<exists>d. 2 \<le> d \<and> d dvd j \<and> d * d \<le> j)"
  show "prime j"
  proof (rule ccontr)
    assume "\<not> prime j"
    then obtain e where e: "1 < e" "e < j" "e dvd j" using assms by (auto simp: prime_iff)
    then obtain f where f: "j = e * f" by (auto simp: dvd_def)
    have fpos: "0 < f" using f e assms by (simp add: zero_less_mult_iff)
    have f2: "2 \<le> f"
    proof (rule ccontr)
      assume "\<not> 2 \<le> f"
      then have "f = 1" using fpos by simp
      then show False using f e by simp
    qed
    show False
    proof (cases "e \<le> f")
      case True
      then have "e * e \<le> e * f" using e(1) by (intro mult_left_mono) auto
      then have "2 \<le> e \<and> e dvd j \<and> e * e \<le> j" using e f by simp
      then show False using no by blast
    next
      case False
      then have "f * f \<le> e * f" using fpos by (intro mult_right_mono) auto
      moreover have "f dvd j" using f by simp
      ultimately have "2 \<le> f \<and> f dvd j \<and> f * f \<le> j" using f2 f by simp
      then show False using no by blast
    qed
  qed
qed

lemma sieved_prime:
  assumes "sieved n (max 1 (isqrt n)) t" "2 \<le> i" "i \<le> n"
  shows "t ! nat i = prime i"
proof -
  let ?s = "isqrt n"
  have n0: "0 \<le> n" using assms by simp
  have "t ! nat i = (2 \<le> i \<and> \<not> (\<exists>d. 2 \<le> d \<and> d \<le> max 1 ?s \<and> d dvd i \<and> d * d \<le> i))"
    using assms by (simp add: sieved_def)
  moreover have "(\<exists>d. 2 \<le> d \<and> d \<le> max 1 ?s \<and> d dvd i \<and> d * d \<le> i)
      \<longleftrightarrow> (\<exists>d. 2 \<le> d \<and> d dvd i \<and> d * d \<le> i)" (is "?A \<longleftrightarrow> ?B")
  proof
    assume ?A then show ?B by blast
  next
    assume ?B
    then obtain d where d: "2 \<le> d" "d dvd i" "d * d \<le> i" by blast
    have "d \<le> ?s"
    proof (rule ccontr)
      assume "\<not> d \<le> ?s"
      then have "?s + 1 \<le> d" by simp
      moreover have "0 \<le> ?s + 1" using isqrt_bounds(1)[OF n0] by simp
      ultimately have "(?s + 1) * (?s + 1) \<le> d * d" by (intro mult_mono) auto
      then show False using isqrt_bounds(3)[OF n0] d(3) assms(3) by linarith
    qed
    then have "2 \<le> d \<and> d \<le> max 1 ?s \<and> d dvd i \<and> d * d \<le> i" using d by simp
    then show ?A by blast
  qed
  ultimately show ?thesis using prime_small_divisor[OF assms(2)] assms(2) by simp
qed

lemma isqrt_le:
  assumes "0 \<le> n"
  shows "isqrt n \<le> n"
proof -
  let ?s = "isqrt n"
  have "?s * 1 \<le> ?s * ?s \<or> ?s = 0"
    using isqrt_bounds(1)[OF assms] by (cases "?s = 0") (auto intro!: mult_left_mono)
  then show ?thesis using isqrt_bounds(2)[OF assms] assms by auto
qed

lemma initial_table:
  assumes "1 \<le> n"
  shows "setitem (replicate (nat (n + 1)) True) 0 False = Inr ((replicate (nat (n + 1)) True)[0 := False])"
    and "setitem ((replicate (nat (n + 1)) True)[0 := False]) 1 False
         = Inr ((replicate (nat (n + 1)) True)[0 := False, 1 := False])"
    and "sieved n 1 ((replicate (nat (n + 1)) True)[0 := False, 1 := False])"
proof -
  show "setitem (replicate (nat (n + 1)) True) 0 False = Inr ((replicate (nat (n + 1)) True)[0 := False])"
    using assms by (simp add: setitem_def)
  show "setitem ((replicate (nat (n + 1)) True)[0 := False]) 1 False
         = Inr ((replicate (nat (n + 1)) True)[0 := False, 1 := False])"
    using assms by (simp add: setitem_def)
  show "sieved n 1 ((replicate (nat (n + 1)) True)[0 := False, 1 := False])"
    unfolding sieved_def
  proof (intro conjI allI impI)
    show "int (length ((replicate (nat (n + 1)) True)[0 := False, 1 := False])) = n + 1"
      using assms by simp
  next
    fix j assume j: "0 \<le> j \<and> j \<le> n"
    have "\<not> (\<exists>d::int. 2 \<le> d \<and> d \<le> 1 \<and> d dvd j \<and> d * d \<le> j)" by auto
    moreover have "(replicate (nat (n + 1)) True)[0 := False, 1 := False] ! nat j = (2 \<le> j)"
    proof -
      have l: "nat j < nat (n + 1)" using j by simp
      consider "j = 0" | "j = 1" | "2 \<le> j" using j by linarith
      then show ?thesis
      proof cases
        case 1 then show ?thesis using l by (simp add: nth_list_update)
      next
        case 2 then show ?thesis using l by (simp add: nth_list_update)
      next
        case 3
        then have "nat j \<noteq> 0" "nat j \<noteq> 1" by auto
        then show ?thesis using l 3 by (simp add: nth_list_update)
      qed
    qed
    ultimately show "(replicate (nat (n + 1)) True)[0 := False, 1 := False] ! nat j
        = (2 \<le> j \<and> \<not> (\<exists>d. 2 \<le> d \<and> d \<le> 1 \<and> d dvd j \<and> d * d \<le> j))" by simp
  qed
qed

lemma sieve_primes_correct:
  assumes "1 \<le> n"
  shows "sieve_primes n = Inr (filter prime [2..n])"
proof -
  let ?t1 = "(replicate (nat (n + 1)) True)[0 := False, 1 := False]"
  have n0: "0 \<le> n" using assms by simp
  have "sieved n (2 - 1) ?t1" using initial_table(3)[OF assms] by simp
  from sieve_loop_sieved[OF _ isqrt_le[OF n0] this] obtain t' where
    t': "sieve_loop n ?t1 [2..isqrt n] = Inr t'" "sieved n (max (2 - 1) (isqrt n)) t'" by auto
  have inv: "sieved n (max 1 (isqrt n)) t'" using t'(2) by simp
  then have len: "int (length t') = n + 1" by (simp add: sieved_def)
  have "\<forall>i\<in>set [2..n]. 0 \<le> i \<and> i < int (length t')" using len by auto
  then have "unmarked_of t' [2..n] = Inr (filter (\<lambda>i. t' ! nat i) [2..n])"
    by (rule unmarked_of_ok)
  moreover have "filter (\<lambda>i. t' ! nat i) [2..n] = filter prime [2..n]"
    by (rule filter_cong) (auto simp: sieved_prime[OF inv])
  ultimately show ?thesis
    using initial_table(1,2)[OF assms] t'(1) by (simp add: sieve_primes_def)
qed

lemma sieve_primes_raises:
  assumes "n \<le> 0"
  shows "sieve_primes n = Inl IndexError"
proof (cases "n = 0")
  case True
  then show ?thesis by (simp add: sieve_primes_def setitem_def)
next
  case False
  then have "nat (n + 1) = 0" using assms by simp
  then show ?thesis by (simp add: sieve_primes_def setitem_def)
qed

text \<open>
  Claim C3. \<open>sieve_primes(limit)\<close> is claimed to return the primes up to \<open>limit\<close>, in
  ascending order and once each, for every non-negative \<open>limit\<close>. For \<open>limit \<ge> 1\<close> it
  does: the result is the list \<open>[2..limit]\<close> filtered by primality, and for 100 it is the
  25 primes up to 97. For \<open>limit = 0\<close> the table has the single entry 0, so the
  assignment \<open>is_prime[1] = False\<close> raises \<open>IndexError\<close> instead of returning the empty
  list; so it does for a negative \<open>limit\<close>, where the table is empty.
\<close>

theorem sieve_primes_result:
  "sieve_primes 0 = Inl IndexError \<and>
   (n \<le> 0 \<longrightarrow> sieve_primes n = Inl IndexError) \<and>
   (1 \<le> n \<longrightarrow> sieve_primes n = Inr (filter prime [2..n])) \<and>
   sieve_primes 100 =
     Inr [2, 3, 5, 7, 11, 13, 17, 19, 23, 29, 31, 37, 41, 43, 47, 53, 59, 61, 67, 71, 73, 79,
          83, 89, 97]"
proof (intro conjI impI)
  show "sieve_primes 0 = Inl IndexError" by (rule sieve_primes_raises) simp
  show "sieve_primes 100 =
     Inr [2, 3, 5, 7, 11, 13, 17, 19, 23, 29, 31, 37, 41, 43, 47, 53, 59, 61, 67, 71, 73, 79,
          83, 89, 97]" by code_simp
next
  assume "n \<le> 0" then show "sieve_primes n = Inl IndexError" by (rule sieve_primes_raises)
next
  assume "1 \<le> n" then show "sieve_primes n = Inr (filter prime [2..n])"
    by (rule sieve_primes_correct)
qed

theorem sieve_primes_result_witness:
  "(- 3::int) \<le> 0 \<and> sieve_primes (- 3) = Inl IndexError \<and>
   (1::int) \<le> 10 \<and> sieve_primes 10 = Inr (filter prime [2..10]) \<and>
   filter prime [2..10] = [2, 3, 5, 7]"
proof -
  have "filter prime [2..10] = [2, 3, 5, 7]" by (simp add: prime_def upto_rec1)
  then show ?thesis
    using sieve_primes_result[of "- 3"] sieve_primes_result[of 10] by simp
qed

text \<open>
  Claim C6, as stated, fails. The repository has no \<open>mod_pow\<close> of its own: it calls the
  builtin \<open>pow(base, exp, mod)\<close>, which accepts a negative modulus and returns a result
  of the sign of the modulus; \<open>pow(2, 3, -5)\<close> is \<open>-2\<close>, not a failure.
\<close>

theorem python_pow_negative_modulus: "python_pow 2 3 (- 5) = Inr (- 2)"
  by (simp add: python_pow_def)

text \<open>
  Claim C6, amended. The modular power fails exactly for the modulus 0 (with
  \<open>ValueError\<close>). For a modulus \<open>m > 0\<close> and an exponent \<open>e \<ge> 0\<close> it returns
  \<open>b^e mod m\<close>, which lies in \<open>[0, m)\<close>; for \<open>m < 0\<close> it returns \<open>b^e mod m\<close> in
  \<open>(m, 0]\<close>. In \<open>is_prime_miller_rabin\<close> the modulus is the tested \<open>n \<ge> 5\<close>, so no
  round raises and the test always returns a verdict.
\<close>

theorem python_pow_contract:
  "(m = 0 \<longrightarrow> python_pow b e m = Inl ValueError) \<and>
   (0 < m \<longrightarrow> python_pow b e m = Inr (b ^ e mod m) \<and> 0 \<le> b ^ e mod m \<and> b ^ e mod m < m) \<and>
   (m < 0 \<longrightarrow> python_pow b e m = Inr (b ^ e mod m) \<and> m < b ^ e mod m \<and> b ^ e mod m \<le> 0) \<and>
   (n \<noteq> 0 \<longrightarrow> (\<exists>v. round_passes n r d a = Inr v)) \<and>
   (\<exists>v g'. is_prime_miller_rabin n k g = Some (Inr (v, g')))"
proof (intro conjI impI)
  assume "n \<noteq> 0" then show "\<exists>v. round_passes n r d a = Inr v" by (rule round_passes_total)
next
  show "\<exists>v g'. is_prime_miller_rabin n k g = Some (Inr (v, g'))" by (rule miller_rabin_total)
qed (simp_all add: python_pow_def)

theorem python_pow_contract_witness:
  "python_pow 2 3 0 = Inl ValueError \<and>
   (0::int) < 7 \<and> python_pow 3 4 7 = Inr (3 ^ 4 mod 7) \<and> (3::int) ^ 4 mod 7 = 4 \<and>
   (- 5::int) < 0 \<and> python_pow 2 3 (- 5) = Inr (2 ^ 3 mod (- 5)) \<and> (2::int) ^ 3 mod (- 5) = - 2 \<and>
   (\<exists>v. round_passes 9 3 1 2 = Inr v)"
  using python_pow_contract[of 0 2 3 9 3 1 2] python_pow_contract[of 7 3 4 9 3 1 2]
    python_pow_contract[of "- 5" 2 3 9 3 1 2]
  by simp

section \<open>Roots of the polynomial modulo a prime\<close>

lemma prime_47: "prime 47"
  by (simp add: prime_def upto_rec1)

lemma power_cycle:
  assumes "prime p"
  shows "x ^ (1 + nat (p - 1) * k) mod p = x mod p"
proof (cases "p dvd x")
  case True
  have "p dvd x ^ (1 + nat (p - 1) * k)" using True by (simp add: dvd_mult2)
  then show ?thesis using True by (simp add: mod_eq_0_iff_dvd)
next
  case False
  have "x ^ nat (p - 1) mod p = 1" by (rule fermat_little[OF assms False])
  then have "(x ^ nat (p - 1)) ^ k mod p = 1 ^ k mod p" by (metis power_mod)
  moreover have p: "2 \<le> p" using assms by (simp add: prime_iff)
  ultimately have one: "(x ^ nat (p - 1)) ^ k mod p = 1" by simp
  have "x ^ (nat (p - 1) * k) = (x ^ nat (p - 1)) ^ k" by (rule power_mult)
  then have "x ^ (1 + nat (p - 1) * k) = x * (x ^ nat (p - 1)) ^ k" by simp
  then have "x ^ (1 + nat (p - 1) * k) mod p = (x mod p) * ((x ^ nat (p - 1)) ^ k mod p) mod p"
    by (simp only: mod_mult_eq)
  then show ?thesis using one by simp
qed

lemma power47_injective:
  assumes "prime p" "(p - 1) mod 47 \<noteq> 0" "x ^ 47 mod p = y ^ 47 mod p"
  shows "x mod p = y mod p"
proof -
  have p: "2 \<le> p" using assms(1) by (simp add: prime_iff)
  have "\<not> 47 dvd (p - 1)" using assms(2) by (simp add: mod_eq_0_iff_dvd)
  then have "coprime 47 (p - 1)" by (rule prime_coprime[OF prime_47])
  then have "coprime (int 47) (int (nat (p - 1)))" using p by simp
  then have "coprime (47::nat) (nat (p - 1))" by (simp only: coprime_int_iff)
  then have g: "gcd (47::nat) (nat (p - 1)) = 1" by simp
  obtain e k where "47 * e = nat (p - 1) * k + gcd (47::nat) (nat (p - 1))"
    using bezout_nat[of 47 "nat (p - 1)"] by auto
  then have ek: "47 * e = 1 + nat (p - 1) * k" using g by simp
  have "x mod p = x ^ (47 * e) mod p" using power_cycle[OF assms(1), of x k] ek by simp
  also have "\<dots> = (x ^ 47 mod p) ^ e mod p" by (simp add: power_mult power_mod)
  also have "\<dots> = (y ^ 47 mod p) ^ e mod p" using assms(3) by simp
  also have "\<dots> = y ^ (47 * e) mod p" by (simp add: power_mult power_mod)
  also have "\<dots> = y mod p" using power_cycle[OF assms(1), of y k] ek by simp
  finally show ?thesis .
qed

lemma is_root_value:
  assumes "p \<noteq> 0"
  shows "is_root n p = Inr ((n ^ 47 mod p - ((n - 1) mod p) ^ 47 mod p) mod p = 0)"
  using assms by (simp add: is_root_def python_pow_def python_mod_def)

lemma no_root:
  assumes "prime p" "(p - 1) mod 47 \<noteq> 0"
  shows "is_root n p = Inr False"
proof -
  have p: "2 \<le> p" using assms(1) by (simp add: prime_iff)
  have "(n ^ 47 mod p - ((n - 1) mod p) ^ 47 mod p) mod p \<noteq> 0"
  proof
    assume "(n ^ 47 mod p - ((n - 1) mod p) ^ 47 mod p) mod p = 0"
    then have "(n ^ 47 - (n - 1) ^ 47) mod p = 0" by (simp add: mod_diff_eq power_mod)
    then have "n ^ 47 mod p = (n - 1) ^ 47 mod p"
      by (simp add: mod_eq_dvd_iff mod_eq_0_iff_dvd)
    then have "n mod p = (n - 1) mod p" by (rule power47_injective[OF assms])
    then have "p dvd n - (n - 1)" by (simp only: mod_eq_dvd_iff)
    then have "p dvd 1" by simp
    then show False using p by simp
  qed
  then show ?thesis using p by (simp add: is_root_value)
qed

lemma count_roots_none:
  "\<forall>n\<in>set ns. is_root n p = Inr False \<Longrightarrow> count_roots p ns = Inr 0"
  by (induction ns) simp_all

lemma brute_shielding:
  assumes "prime p" "(p - 1) mod 47 \<noteq> 0"
  shows "brute p = Inr 0"
  unfolding brute_def by (rule count_roots_none) (simp add: no_root[OF assms])

lemma modpow_bits_mod:
  "modpow_bits x bs p acc mod p = acc * x ^ bits_value bs mod p"
proof (induction x bs p acc rule: modpow_bits.induct)
  case (1 x p acc)
  then show ?case by simp
next
  case (2 x b p acc)
  then show ?case by simp
next
  case (3 x b b' bs p acc)
  let ?v = "bits_value (b' # bs)"
  let ?acc = "if b then acc * x mod p else acc"
  have "(x * x) ^ ?v = x ^ (2 * ?v)"
    by (simp only: power_mult power2_eq_square)
  then have sq: "(x * x mod p) ^ ?v mod p = x ^ (2 * ?v) mod p"
    by (simp only: power_mod)
  have "modpow_bits x (b # b' # bs) p acc mod p = ?acc * (x * x mod p) ^ ?v mod p"
    using 3 by simp
  also have "\<dots> = (?acc mod p) * ((x * x mod p) ^ ?v mod p) mod p"
    by (simp only: mod_mult_eq)
  also have "\<dots> = (?acc mod p) * (x ^ (2 * ?v) mod p) mod p" by (simp only: sq)
  also have "\<dots> = ?acc * x ^ (2 * ?v) mod p" by (simp only: mod_mult_eq)
  also have "\<dots> = acc * x ^ bits_value (b # b' # bs) mod p"
  proof (cases b)
    case True
    have "(acc * x mod p) * x ^ (2 * ?v) mod p = (acc * x) * x ^ (2 * ?v) mod p"
      by (simp only: mod_mult_left_eq)
    then show ?thesis using True by (simp add: mult.assoc)
  next
    case False
    then show ?thesis by simp
  qed
  finally show ?case .
qed

lemma pow47_bits: "x ^ 47 mod p = modpow_bits x [True, True, True, True, False, True] p 1 mod p"
  by (simp only: modpow_bits_mod) simp

lemma is_root_fast:
  assumes "p \<noteq> 0"
  shows "is_root n p =
    Inr ((modpow_bits n [True, True, True, True, False, True] p 1 mod p
          - modpow_bits ((n - 1) mod p) [True, True, True, True, False, True] p 1 mod p) mod p = 0)"
proof -
  have "is_root n p = Inr ((n ^ 47 mod p - ((n - 1) mod p) ^ 47 mod p) mod p = 0)"
    by (rule is_root_value[OF assms])
  then show ?thesis by (simp only: pow47_bits)
qed

lemma count_roots_append:
  "count_roots p (xs @ ys) =
     (case count_roots p xs of
        Inl e \<Rightarrow> Inl e
      | Inr a \<Rightarrow> (case count_roots p ys of Inl e \<Rightarrow> Inl e | Inr b \<Rightarrow> Inr (a + b)))"
  by (induction xs) (auto split: sum.splits)

lemma roots_283_0: "count_roots 283 [0..35] = Inr 7"
  by (simp add: is_root_fast upto_rec1)

lemma roots_283_1: "count_roots 283 [36..71] = Inr 4"
  by (simp add: is_root_fast upto_rec1)

lemma roots_283_2: "count_roots 283 [72..107] = Inr 7"
  by (simp add: is_root_fast upto_rec1)

lemma roots_283_3: "count_roots 283 [108..143] = Inr 5"
  by (simp add: is_root_fast upto_rec1)

lemma roots_283_4: "count_roots 283 [144..179] = Inr 5"
  by (simp add: is_root_fast upto_rec1)

lemma roots_283_5: "count_roots 283 [180..215] = Inr 8"
  by (simp add: is_root_fast upto_rec1)

lemma roots_283_6: "count_roots 283 [216..251] = Inr 4"
  by (simp add: is_root_fast upto_rec1)

lemma roots_283_7: "count_roots 283 [252..282] = Inr 6"
  by (simp add: is_root_fast upto_rec1)

section \<open>The brute-force check of the root counts\<close>

lemma sieve_300:
  "sieve_primes 300 = Inr [2, 3, 5, 7, 11, 13, 17, 19, 23, 29, 31, 37, 41, 43, 47, 53, 59, 61, 67, 71, 73, 79, 83, 89, 97, 101, 103, 107, 109, 113, 127, 131, 137, 139, 149, 151, 157, 163, 167, 173, 179, 181, 191, 193, 197, 199, 211, 223, 227, 229, 233, 239, 241, 251, 257, 263, 269, 271, 277, 281, 283, 293]"
  by code_simp

lemma primes_300:
  "filter prime [2..300] = [2, 3, 5, 7, 11, 13, 17, 19, 23, 29, 31, 37, 41, 43, 47, 53, 59, 61, 67, 71, 73, 79, 83, 89, 97, 101, 103, 107, 109, 113, 127, 131, 137, 139, 149, 151, 157, 163, 167, 173, 179, 181, 191, 193, 197, 199, 211, 223, 227, 229, 233, 239, 241, 251, 257, 263, 269, 271, 277, 281, 283, 293]"
proof -
  have "sieve_primes 300 = Inr (filter prime [2..300])" by (rule sieve_primes_correct) simp
  then have "Inr (filter prime [2..300]) = sieve_primes 300" by (rule sym)
  then show ?thesis by (simp only: sieve_300 sum.inject)
qed

lemma prime_up_to_300:
  assumes "prime p" "p \<le> 300"
  shows "p \<in> set [2, 3, 5, 7, 11, 13, 17, 19, 23, 29, 31, 37, 41, 43, 47, 53, 59, 61, 67, 71, 73, 79, 83, 89, 97, 101, 103, 107, 109, 113, 127, 131, 137, 139, 149, 151, 157, 163, 167, 173, 179, 181, 191, 193, 197, 199, 211, 223, 227, 229, 233, 239, 241, 251, 257, 263, 269, 271, 277, 281, 283, 293]"
proof -
  have "2 \<le> p" using assms(1) by (simp add: prime_iff)
  then have "p \<in> {2..300}" using assms(2) by (simp only: atLeastAtMost_iff)
  then have "p \<in> set [2..300]" by (simp only: set_upto)
  then have "p \<in> set (filter prime [2..300])" using assms(1) by (simp only: set_filter mem_Collect_eq)
  then show ?thesis by (simp only: primes_300)
qed

lemma splitting_up_to_300:
  assumes "prime p" "p \<le> 300" "(p - 1) mod 47 = 0"
  shows "p = 283"
  using prime_up_to_300[OF assms(1,2)] assms(3) by auto

lemma upto_split_at:
  fixes i j k :: int
  assumes "i \<le> j" "j \<le> k" "j' = j + 1"
  shows "[i..k] = [i..j] @ [j'..k]"
  using upto_split2[OF assms(1,2)] assms(3) by simp

lemma upto_283:
  "[0..283 - 1] = [0..35] @ [36..71] @ [72..107] @ [108..143] @ [144..179] @ [180..215]
                  @ [216..251] @ [252..282::int]"
proof -
  have "(283::int) - 1 = 282" by simp
  then have "[0..283 - 1] = [0..282::int]" by (simp only:)
  also have "[0..282::int] = [0..35] @ [36..282]" by (rule upto_split_at) simp_all
  also have "[36..282::int] = [36..71] @ [72..282]" by (rule upto_split_at) simp_all
  also have "[72..282::int] = [72..107] @ [108..282]" by (rule upto_split_at) simp_all
  also have "[108..282::int] = [108..143] @ [144..282]" by (rule upto_split_at) simp_all
  also have "[144..282::int] = [144..179] @ [180..282]" by (rule upto_split_at) simp_all
  also have "[180..282::int] = [180..215] @ [216..282]" by (rule upto_split_at) simp_all
  also have "[216..282::int] = [216..251] @ [252..282]" by (rule upto_split_at) simp_all
  finally show ?thesis .
qed

lemma brute_283: "brute 283 = Inr 46"
proof -
  have "brute 283 = count_roots 283 ([0..35] @ [36..71] @ [72..107] @ [108..143] @ [144..179]
            @ [180..215] @ [216..251] @ [252..282])"
    unfolding brute_def by (simp only: upto_283)
  also have "\<dots> = Inr 46"
    by (simp only: count_roots_append roots_283_0 roots_283_1 roots_283_2 roots_283_3
        roots_283_4 roots_283_5 roots_283_6 roots_283_7 sum.case) simp
  finally show ?thesis .
qed

lemma omega_Q_cases: "omega_Q p = (if p = 47 then 0 else if p mod 47 = 1 then 46 else 0)"
proof -
  have "(p - 1) mod 47 = 0 \<longleftrightarrow> p mod 47 = 1" by presburger
  then show ?thesis by (simp add: omega_Q_def)
qed

lemma brute_matches:
  assumes "prime p" "p \<le> 300"
  shows "brute p = Inr (omega_Q p)"
proof (cases "(p - 1) mod 47 = 0")
  case True
  then have "p = 283" by (rule splitting_up_to_300[OF assms])
  then show ?thesis using brute_283 by (simp add: omega_Q_def)
next
  case False
  then have "omega_Q p = 0" by (simp add: omega_Q_def)
  then show ?thesis using brute_shielding[OF assms(1) False] by simp
qed

lemma count_roots_card:
  assumes "p \<noteq> 0"
  shows "count_roots p ns =
    Inr (int (length (filter (\<lambda>n. (n ^ 47 - (n - 1) ^ 47) mod p = 0) ns)))"
proof (induction ns)
  case Nil
  then show ?case by simp
next
  case (Cons n ns)
  have "(n ^ 47 mod p - ((n - 1) mod p) ^ 47 mod p) mod p = (n ^ 47 - (n - 1) ^ 47) mod p"
    by (simp only: power_mod mod_diff_eq)
  then show ?case using Cons assms by (simp add: is_root_value)
qed

lemma brute_card:
  assumes "0 < p"
  shows "brute p = Inr (int (card {n. 0 \<le> n \<and> n < p \<and> (n ^ 47 - (n - 1) ^ 47) mod p = 0}))"
proof -
  let ?P = "\<lambda>n. (n ^ 47 - (n - 1) ^ 47) mod p = 0"
  have "length (filter ?P [0..p - 1]) = card ({n. ?P n} \<inter> set [0..p - 1])"
    by (rule distinct_length_filter) simp
  moreover have "{n. ?P n} \<inter> set [0..p - 1] = {n. 0 \<le> n \<and> n < p \<and> ?P n}" by auto
  ultimately have "length (filter ?P [0..p - 1]) = card {n. 0 \<le> n \<and> n < p \<and> ?P n}" by simp
  moreover have "brute p = Inr (int (length (filter ?P [0..p - 1])))"
    unfolding brute_def using assms by (intro count_roots_card) simp
  ultimately show ?thesis by simp
qed

lemma omega_loop_all:
  "\<forall>p\<in>set ps. brute p = Inr (omega_Q p) \<Longrightarrow> omega_loop b ps = Inr b"
  by (induction ps arbitrary: b) simp_all

lemma verify_omega_300: "verify_omega_computationally 300 = Inr True"
proof -
  have s: "sieve_primes 300 = Inr (filter prime [2..300])" by (rule sieve_primes_correct) simp
  have "\<forall>p\<in>set (filter prime [2..300]). brute p = Inr (omega_Q p)"
  proof
    fix p assume "p \<in> set (filter prime [2..300])"
    then have "p \<in> set [2..300] \<and> prime p" by (simp only: set_filter mem_Collect_eq)
    then have "prime p" "p \<le> 300" by (simp_all only: set_upto atLeastAtMost_iff)
    then show "brute p = Inr (omega_Q p)" by (rule brute_matches)
  qed
  then have "omega_loop True (filter prime [2..300]) = Inr True" by (rule omega_loop_all)
  then show ?thesis unfolding verify_omega_computationally_def s by (simp only: sum.case)
qed

lemma prime_283: "prime 283"
proof -
  have "283 \<in> set (filter prime [2..300])" by (simp only: primes_300) simp
  then show ?thesis by (simp only: set_filter mem_Collect_eq)
qed

text \<open>
  Claim C4. For every prime \<open>p < 300\<close>, \<open>omega_Q(p)\<close> is the brute-force count of the
  \<open>n\<close> in \<open>[0, p)\<close> with \<open>(n^47 - (n - 1)^47) mod p = 0\<close>, which is what \<open>brute\<close>
  computes; \<open>omega_Q(p)\<close> is 0 for \<open>p = 47\<close>, 46 for \<open>p \<equiv> 1 (mod 47)\<close> and 0 otherwise;
  and \<open>verify_omega_computationally(300)\<close> returns \<open>True\<close>.
\<close>

theorem omega_matches_brute_force:
  "(prime p \<and> p < 300 \<longrightarrow>
      brute p = Inr (omega_Q p) \<and>
      brute p = Inr (int (card {n. 0 \<le> n \<and> n < p \<and> (n ^ 47 - (n - 1) ^ 47) mod p = 0}))) \<and>
   omega_Q p = (if p = 47 then 0 else if p mod 47 = 1 then 46 else 0) \<and>
   verify_omega_computationally 300 = Inr True"
proof (intro conjI impI)
  assume h: "prime p \<and> p < 300"
  then show "brute p = Inr (omega_Q p)" by (intro brute_matches) auto
  have "0 < p" using h by (simp add: prime_iff)
  then show "brute p = Inr (int (card {n. 0 \<le> n \<and> n < p \<and> (n ^ 47 - (n - 1) ^ 47) mod p = 0}))"
    by (rule brute_card)
next
  show "omega_Q p = (if p = 47 then 0 else if p mod 47 = 1 then 46 else 0)" by (rule omega_Q_cases)
  show "verify_omega_computationally 300 = Inr True" by (rule verify_omega_300)
qed

theorem omega_matches_brute_force_witness:
  "prime 283 \<and> (283::int) < 300 \<and> brute 283 = Inr (omega_Q 283) \<and> omega_Q 283 = 46 \<and>
   brute 283 = Inr (int (card {n::int. 0 \<le> n \<and> n < 283 \<and> (n ^ 47 - (n - 1) ^ 47) mod 283 = 0})) \<and>
   prime 47 \<and> (47::int) < 300 \<and> brute 47 = Inr (omega_Q 47) \<and> omega_Q 47 = 0"
proof -
  have o: "omega_Q 283 = 46" "omega_Q 47 = 0" by (simp_all add: omega_Q_def)
  have a: "(283::int) < 300" "(47::int) < 300" by simp_all
  have b: "brute 283 = Inr (omega_Q 283) \<and>
      brute 283 = Inr (int (card {n::int. 0 \<le> n \<and> n < 283 \<and> (n ^ 47 - (n - 1) ^ 47) mod 283 = 0}))"
    using omega_matches_brute_force[of 283] prime_283 a(1) by blast
  have c: "brute 47 = Inr (omega_Q 47)"
    using omega_matches_brute_force[of 47] prime_47 a(2) by blast
  show ?thesis using o a b c prime_283 prime_47 by blast
qed

section \<open>The singular-series accumulator\<close>

lemma local_factor_of_ok:
  assumes "2 \<le> p"
  shows "\<exists>f. local_factor_of w p = Inr f"
proof -
  have "1 < real_of_int p" using assms by simp
  then have "1 / real_of_int p < 1" by simp
  then have "1 - 1 / real_of_int p \<noteq> 0" by linarith
  moreover have "p \<noteq> 0" using assms by simp
  ultimately show ?thesis unfolding local_factor_of_def by (simp only: if_False) blast
qed

lemma series_loop_counts:
  "\<forall>p\<in>set ps. 2 \<le> p \<Longrightarrow>
   \<exists>st'. series_loop st ps = Inr st' \<and>
     n_shielding st' = n_shielding st + int (length (filter (\<lambda>p. omega_Q p = 0) ps)) \<and>
     n_splitting st' = n_splitting st + int (length (filter (\<lambda>p. omega_Q p \<noteq> 0) ps))"
proof (induction ps arbitrary: st)
  case Nil
  then show ?case by simp
next
  case (Cons p ps)
  have "2 \<le> p" using Cons.prems by simp
  then obtain f where f: "local_factor_of (omega_Q p) p = Inr f"
    using local_factor_of_ok by blast
  define st2 where "st2 =
    (if omega_Q p = 0
     then st\<lparr>C_Q := C_Q st * f, shielding_product := shielding_product st * f,
              n_shielding := n_shielding st + 1\<rparr>
     else st\<lparr>C_Q := C_Q st * f, n_splitting := n_splitting st + 1\<rparr>)"
  have step: "series_loop st (p # ps) = series_loop st2 ps"
    using f by (simp add: Let_def st2_def)
  have "\<forall>q\<in>set ps. 2 \<le> q" using Cons.prems by simp
  from Cons.IH[OF this, of st2] obtain st' where st':
    "series_loop st2 ps = Inr st'"
    "n_shielding st' = n_shielding st2 + int (length (filter (\<lambda>p. omega_Q p = 0) ps))"
    "n_splitting st' = n_splitting st2 + int (length (filter (\<lambda>p. omega_Q p \<noteq> 0) ps))"
    by blast
  show ?case
  proof (cases "omega_Q p = 0")
    case True
    then have "n_shielding st2 = n_shielding st + 1" "n_splitting st2 = n_splitting st"
      by (simp_all add: st2_def)
    then show ?thesis using step st' True by simp
  next
    case False
    then have "n_shielding st2 = n_shielding st" "n_splitting st2 = n_splitting st + 1"
      by (simp_all add: st2_def)
    then show ?thesis using step st' False by simp
  qed
qed

lemma ptype_split: "ptype (omega_Q p) p = ''SPLIT'' \<longleftrightarrow> (p - 1) mod 47 = 0"
  by (auto simp: ptype_def omega_Q_def)

lemma ptype_ramified: "ptype (omega_Q p) p = ''ramified'' \<longleftrightarrow> p = 47"
  by (auto simp: ptype_def omega_Q_def)

lemma ptype_shield: "ptype (omega_Q p) p = ''shield'' \<longleftrightarrow> p \<noteq> 47 \<and> (p - 1) mod 47 \<noteq> 0"
  by (auto simp: ptype_def omega_Q_def)

lemma omega_Q_split: "omega_Q p = 46 \<longleftrightarrow> ptype (omega_Q p) p = ''SPLIT''"
  by (auto simp: ptype_def omega_Q_def)

lemma omega_Q_zero: "omega_Q p = 0 \<longleftrightarrow> ptype (omega_Q p) p = ''shield'' \<or> p = 47"
  by (auto simp: ptype_def omega_Q_def)

lemma count_47:
  "length (filter (\<lambda>p. p = 47) (filter prime [2..p_max])) = (if 47 \<le> p_max then 1 else 0)"
proof -
  have "length (filter (\<lambda>p. p = 47) (filter prime [2..p_max]))
      = card ({p. p = 47} \<inter> set (filter prime [2..p_max]))"
    by (rule distinct_length_filter) simp
  moreover have "{p. p = 47} \<inter> set (filter prime [2..p_max]) = (if 47 \<le> p_max then {47} else {})"
    using prime_47 by auto
  ultimately show ?thesis by simp
qed

lemma length_filter_disj:
  "\<forall>x\<in>set xs. \<not> (P x \<and> R x) \<Longrightarrow>
   length (filter (\<lambda>x. P x \<or> R x) xs) = length (filter P xs) + length (filter R xs)"
  by (induction xs) auto

lemma compute_CQ_counts:
  assumes "1 \<le> p_max"
  shows "\<exists>st. compute_CQ_state p_max = Inr st \<and>
     n_splitting st = int (length (filter (\<lambda>p. ptype (omega_Q p) p = ''SPLIT'')
                                    (filter prime [2..p_max]))) \<and>
     n_shielding st = int (length (filter (\<lambda>p. omega_Q p = 0) (filter prime [2..p_max]))) \<and>
     n_shielding st = int (length (filter (\<lambda>p. ptype (omega_Q p) p = ''shield'')
                                    (filter prime [2..p_max]))) + (if 47 \<le> p_max then 1 else 0)"
proof -
  let ?ps = "filter prime [2..p_max]"
  let ?st0 = "\<lparr>C_Q = 1, shielding_product = 1, n_shielding = 0, n_splitting = 0\<rparr>"
  have s: "sieve_primes p_max = Inr ?ps" by (rule sieve_primes_correct[OF assms])
  have "\<forall>p\<in>set ?ps. 2 \<le> p" by simp
  from series_loop_counts[OF this, of ?st0] obtain st where st:
    "series_loop ?st0 ?ps = Inr st"
    "n_shielding st = n_shielding ?st0 + int (length (filter (\<lambda>p. omega_Q p = 0) ?ps))"
    "n_splitting st = n_splitting ?st0 + int (length (filter (\<lambda>p. omega_Q p \<noteq> 0) ?ps))"
    by blast
  have c: "compute_CQ_state p_max = Inr st" using s st(1) by (simp add: compute_CQ_state_def)
  have "(\<lambda>p. omega_Q p \<noteq> 0) = (\<lambda>p. ptype (omega_Q p) p = ''SPLIT'')"
    by (auto simp: ptype_def omega_Q_def)
  then have sp: "n_splitting st = int (length (filter (\<lambda>p. ptype (omega_Q p) p = ''SPLIT'') ?ps))"
    using st(3) by simp
  have sh: "n_shielding st = int (length (filter (\<lambda>p. omega_Q p = 0) ?ps))" using st(2) by simp
  have "(\<lambda>p. omega_Q p = 0) = (\<lambda>p. ptype (omega_Q p) p = ''shield'' \<or> p = 47)"
    using omega_Q_zero by auto
  then have "length (filter (\<lambda>p. omega_Q p = 0) ?ps)
      = length (filter (\<lambda>p. ptype (omega_Q p) p = ''shield'' \<or> p = 47) ?ps)" by simp
  also have "\<dots> = length (filter (\<lambda>p. ptype (omega_Q p) p = ''shield'') ?ps)
                  + length (filter (\<lambda>p. p = 47) ?ps)"
    by (rule length_filter_disj) (auto simp: ptype_shield)
  finally have "n_shielding st = int (length (filter (\<lambda>p. ptype (omega_Q p) p = ''shield'') ?ps))
      + (if 47 \<le> p_max then 1 else 0)"
    using sh count_47[of p_max] by simp
  then show ?thesis using c sp sh by blast
qed

lemma primes_47:
  "filter prime [2..47] = [2, 3, 5, 7, 11, 13, 17, 19, 23, 29, 31, 37, 41, 43, 47]"
  by (simp add: prime_def upto_rec1)

text \<open>
  Claim C5, as stated, fails on the shielding count. The loop adds one to
  \<open>n_shielding\<close> whenever \<open>omega_Q(p) = 0\<close>, and that holds for the ramified prime 47 as
  well as for the shielding primes. Up to \<open>p_max = 47\<close> there are 15 primes, 14 of them
  classified shielding, and the counter ends at 15.
\<close>

theorem shielding_count_includes_47:
  "map_sum id n_shielding (compute_CQ_state 47) = Inr 15 \<and>
   length (filter (\<lambda>p. ptype (omega_Q p) p = ''shield'') (filter prime [2..47])) = 14 \<and>
   length (filter (\<lambda>p. p \<noteq> 47 \<and> p mod 47 \<noteq> 1) (filter prime [2..47])) = 14"
proof -
  have "(1::int) \<le> 47" by simp
  from compute_CQ_counts[OF this] obtain st where st:
    "compute_CQ_state 47 = Inr st"
    "n_shielding st = int (length (filter (\<lambda>p. omega_Q p = 0) (filter prime [2..47])))"
    by blast
  have e: "length (filter (\<lambda>p. omega_Q p = 0) (filter prime [2..47])) = 15"
    by (simp only: primes_47) (simp add: omega_Q_def)
  have "n_shielding st = 15" using st(2) unfolding e by simp
  then have "map_sum id n_shielding (compute_CQ_state 47) = Inr 15"
    unfolding st(1) by simp
  moreover have "length (filter (\<lambda>p. ptype (omega_Q p) p = ''shield'') (filter prime [2..47])) = 14"
    by (simp only: primes_47 ptype_shield) simp
  moreover have "length (filter (\<lambda>p. p \<noteq> 47 \<and> p mod 47 \<noteq> 1) (filter prime [2..47])) = 14"
    by (simp only: primes_47) simp
  ultimately show ?thesis by blast
qed

text \<open>
  Claim C5, amended. After folding \<open>sieve(p_max)\<close>, \<open>p_max \<ge> 1\<close>, the splitting count is
  the number of primes \<open>p \<le> p_max\<close> classified splitting (\<open>p \<equiv> 1 (mod 47)\<close>), and the
  shielding count is the number of primes \<open>p \<le> p_max\<close> with \<open>omega_Q(p) = 0\<close>: the
  primes classified shielding, and the ramified prime 47 once \<open>p_max \<ge> 47\<close>. Every
  \<open>p\<close> gets exactly one of the three classifications, with \<open>omega_Q = 46\<close> exactly for
  the splitting ones; over \<open>sieve(300)\<close>, 283 is splitting with \<open>omega_Q = 46\<close> and 47 is
  ramified with \<open>omega_Q = 0\<close>.
\<close>

theorem singular_series_counts:
  "(1 \<le> p_max \<longrightarrow>
     (\<exists>st. compute_CQ_state p_max = Inr st \<and>
        n_splitting st = int (length (filter (\<lambda>p. ptype (omega_Q p) p = ''SPLIT'')
                                       (filter prime [2..p_max]))) \<and>
        n_shielding st = int (length (filter (\<lambda>p. omega_Q p = 0) (filter prime [2..p_max]))) \<and>
        n_shielding st = int (length (filter (\<lambda>p. ptype (omega_Q p) p = ''shield'')
                                       (filter prime [2..p_max])))
                         + (if 47 \<le> p_max then 1 else 0))) \<and>
   (ptype (omega_Q p) p = ''SPLIT'' \<longleftrightarrow> (p - 1) mod 47 = 0) \<and>
   (ptype (omega_Q p) p = ''ramified'' \<longleftrightarrow> p = 47) \<and>
   (ptype (omega_Q p) p = ''shield'' \<longleftrightarrow> p \<noteq> 47 \<and> (p - 1) mod 47 \<noteq> 0) \<and>
   (omega_Q p = 46 \<longleftrightarrow> ptype (omega_Q p) p = ''SPLIT'') \<and>
   (omega_Q p = 0 \<longleftrightarrow> ptype (omega_Q p) p = ''shield'' \<or> p = 47) \<and>
   sieve_primes 300 = Inr (filter prime [2..300]) \<and>
   283 \<in> set (filter prime [2..300]) \<and> ptype (omega_Q 283) 283 = ''SPLIT'' \<and> omega_Q 283 = 46 \<and>
   47 \<in> set (filter prime [2..300]) \<and> ptype (omega_Q 47) 47 = ''ramified'' \<and> omega_Q 47 = 0"
proof (intro conjI impI)
  assume "1 \<le> p_max"
  then show "\<exists>st. compute_CQ_state p_max = Inr st \<and>
        n_splitting st = int (length (filter (\<lambda>p. ptype (omega_Q p) p = ''SPLIT'')
                                       (filter prime [2..p_max]))) \<and>
        n_shielding st = int (length (filter (\<lambda>p. omega_Q p = 0) (filter prime [2..p_max]))) \<and>
        n_shielding st = int (length (filter (\<lambda>p. ptype (omega_Q p) p = ''shield'')
                                       (filter prime [2..p_max])))
                         + (if 47 \<le> p_max then 1 else 0)"
    by (rule compute_CQ_counts)
next
  show "sieve_primes 300 = Inr (filter prime [2..300])" by (rule sieve_primes_correct) simp
  show "283 \<in> set (filter prime [2..300])" by (simp only: primes_300) simp
  show "47 \<in> set (filter prime [2..300])" by (simp only: primes_300) simp
  show "ptype (omega_Q 283) 283 = ''SPLIT''" by (simp add: ptype_def omega_Q_def)
  show "ptype (omega_Q 47) 47 = ''ramified''" by (simp add: ptype_def omega_Q_def)
  show "omega_Q 283 = 46" "omega_Q 47 = 0" by (simp_all add: omega_Q_def)
qed (rule ptype_split ptype_ramified ptype_shield omega_Q_split omega_Q_zero)+

theorem singular_series_counts_witness:
  "(1::int) \<le> 300 \<and>
   (\<exists>st. compute_CQ_state 300 = Inr st \<and> n_splitting st = 1 \<and> n_shielding st = 61)"
proof -
  have a: "length (filter (\<lambda>p. ptype (omega_Q p) p = ''SPLIT'') (filter prime [2..300])) = 1"
    by (simp only: primes_300 ptype_split) simp
  have b: "length (filter (\<lambda>p. ptype (omega_Q p) p = ''shield'') (filter prime [2..300])) = 60"
    by (simp only: primes_300 ptype_shield) simp
  have "(1::int) \<le> 300" by simp
  with singular_series_counts[of 300] have "\<exists>st. compute_CQ_state 300 = Inr st \<and>
    n_splitting st = int (length (filter (\<lambda>p. ptype (omega_Q p) p = ''SPLIT'')
                                       (filter prime [2..300]))) \<and>
    n_shielding st = int (length (filter (\<lambda>p. ptype (omega_Q p) p = ''shield'')
                                       (filter prime [2..300]))) + (if (47::int) \<le> 300 then 1 else 0)"
    by blast
  then have "\<exists>st. compute_CQ_state 300 = Inr st \<and> n_splitting st = 1 \<and> n_shielding st = 61"
    unfolding a b by simp
  then show ?thesis by simp
qed

end
